theory Spec2Isabelle
  imports Main "HOL-Library.Multiset" "HOL-Library.Sublist"
begin

section \<open>Data model\<close>

text \<open>
  Modelled from the spec: the declaration of \<open>PackageNode\<close> (module \<open>@/types/package\<close>) is
  not among the sources. The fields are those of the spec's PackageRecord under the names
  the collector writes (\<open>collect-deps.sh\<close>: \<open>explicit, version, repo, locally_built, url,
  depends_on, required_by, optional_depends_on, optional_required_by\<close>) plus the two that
  \<open>packages.ts\<close> reads and writes, \<open>id\<close> and \<open>broken\<close>. The field \<open>id\<close> is called
  \<open>id_pkg\<close> here. A field that the object literal of a synthetic node leaves out is
  \<open>None\<close>; an absent \<open>broken\<close> is falsy in every test the code makes and is \<open>False\<close>.
\<close>

record PackageNode =
  id_pkg :: string
  explicit :: bool
  version :: string
  repo :: "string option"
  locally_built :: "bool option"
  url :: "string option"
  depends_on :: "string list"
  required_by :: "string list"
  optional_depends_on :: "string list option"
  optional_required_by :: "string list option"
  broken :: bool

text \<open>
  A JavaScript \<open>Set\<close> keeps its members in insertion order and ignores the insertion of a
  member it already has: a list without repetition, extended at the end.
\<close>

definition Set_has :: "'a list \<Rightarrow> 'a \<Rightarrow> bool" where
  "Set_has s x = (x \<in> set s)"

definition Set_add :: "'a \<Rightarrow> 'a list \<Rightarrow> 'a list" where
  "Set_add x s = (if Set_has s x then s else s @ [x])"

text \<open>A \<open>Map\<close> is only asked whether it has a key.\<close>

definition Map_has :: "('k \<rightharpoonup> 'v) \<Rightarrow> 'k \<Rightarrow> bool" where
  "Map_has m k = (m k \<noteq> None)"

section \<open>packages.ts\<close>

subsection \<open>Transitive trees\<close>

text \<open>
  \<open>collectPackageTree(packageId, nodes, result)\<close> adds to the set \<open>result\<close>, which the
  caller passes in; the model returns the set after the call. The \<open>forEach\<close> over
  \<open>pkg.depends_on\<close> is the second function: each recursive call starts from the set the
  previous one left.
\<close>

function collectPackageTree :: "string \<Rightarrow> PackageNode list \<Rightarrow> string list \<Rightarrow> string list"
  and collectPackageTree_forEach :: "string list \<Rightarrow> PackageNode list \<Rightarrow> string list \<Rightarrow> string list"
where
  "collectPackageTree packageId nodes result =
     (if Set_has result packageId then result
      else (case find (\<lambda>n. id_pkg n = packageId) nodes of
              None \<Rightarrow> Set_add packageId result
            | Some pkg \<Rightarrow> collectPackageTree_forEach (depends_on pkg) nodes (Set_add packageId result)))"
| "collectPackageTree_forEach [] nodes result = result"
| "collectPackageTree_forEach (dep # deps) nodes result =
     collectPackageTree_forEach deps nodes (collectPackageTree dep nodes result)"
  by pat_completeness auto

text \<open>The number of records whose name has not been visited: the measure of both traversals.\<close>

definition unvisited :: "PackageNode list \<Rightarrow> string list \<Rightarrow> nat" where
  "unvisited nodes result = length (filter (\<lambda>n. id_pkg n \<notin> set result) nodes)"

lemma set_Set_add [simp]: "set (Set_add x s) = insert x (set s)"
  by (auto simp: Set_add_def Set_has_def)

lemma distinct_Set_add: "distinct s \<Longrightarrow> distinct (Set_add x s)"
  by (simp add: Set_add_def Set_has_def)

lemma unvisited_mono: "set r \<subseteq> set r' \<Longrightarrow> unvisited nodes r' \<le> unvisited nodes r"
  unfolding unvisited_def by (induction nodes) auto

lemma unvisited_less:
  assumes "find (\<lambda>n. id_pkg n = p) nodes = Some pkg" and "p \<notin> set r"
  shows "unvisited nodes (Set_add p r) < unvisited nodes r"
proof -
  from assms(1) have mem: "pkg \<in> set nodes" and idp: "id_pkg pkg = p"
    by (auto simp: find_Some_iff)
  have "length (filter (\<lambda>n. id_pkg n \<notin> insert p (set r)) nodes)
          < length (filter (\<lambda>n. id_pkg n \<notin> set r) nodes)"
    using mem
  proof (induction nodes)
    case Nil
    then show ?case by simp
  next
    case (Cons n ns)
    have le: "length (filter (\<lambda>n. id_pkg n \<notin> insert p (set r)) ns)
                \<le> length (filter (\<lambda>n. id_pkg n \<notin> set r) ns)"
      by (induction ns) auto
    show ?case
    proof (cases "pkg = n")
      case True
      then show ?thesis using idp assms(2) le by auto
    next
      case False
      then have "pkg \<in> set ns" using Cons.prems by simp
      from Cons.IH[OF this] show ?thesis by auto
    qed
  qed
  then show ?thesis by (simp add: unvisited_def)
qed

lemma collectPackageTree_grows_dom:
  "collectPackageTree_collectPackageTree_forEach_dom (Inl (p, nodes, r)) \<Longrightarrow>
     set r \<subseteq> set (collectPackageTree p nodes r)"
  "collectPackageTree_collectPackageTree_forEach_dom (Inr (ds, nodes, r)) \<Longrightarrow>
     set r \<subseteq> set (collectPackageTree_forEach ds nodes r)"
  by (induct rule: collectPackageTree_collectPackageTree_forEach.pinduct)
     (auto simp: collectPackageTree.psimps collectPackageTree_forEach.psimps
           split: option.splits)

termination collectPackageTree
proof (relation "inv_image (less_than <*lex*> less_than)
         (\<lambda>x. case x of Inl (p, nodes, r) \<Rightarrow> (unvisited nodes r, 0)
                       | Inr (ds, nodes, r) \<Rightarrow> (unvisited nodes r, Suc (length ds)))",
       goal_cases)
  case 1
  show ?case by (intro wf_inv_image wf_lex_prod wf_less_than)
next
  case (2 packageId nodes result pkg)
  then show ?case by (simp add: unvisited_less Set_has_def)
next
  case (3 dep deps nodes result)
  then show ?case by simp
next
  case (4 dep deps nodes result)
  then show ?case
    using unvisited_mono[OF collectPackageTree_grows_dom(1)[OF 4]]
    by (auto simp: le_less)
qed

declare collectPackageTree.simps [simp del]

function collectReversePackageTree :: "string \<Rightarrow> PackageNode list \<Rightarrow> string list \<Rightarrow> string list"
  and collectReversePackageTree_forEach :: "string list \<Rightarrow> PackageNode list \<Rightarrow> string list \<Rightarrow> string list"
where
  "collectReversePackageTree packageId nodes result =
     (if Set_has result packageId then result
      else (case find (\<lambda>n. id_pkg n = packageId) nodes of
              None \<Rightarrow> Set_add packageId result
            | Some pkg \<Rightarrow>
                collectReversePackageTree_forEach (required_by pkg) nodes (Set_add packageId result)))"
| "collectReversePackageTree_forEach [] nodes result = result"
| "collectReversePackageTree_forEach (parent # parents) nodes result =
     collectReversePackageTree_forEach parents nodes (collectReversePackageTree parent nodes result)"
  by pat_completeness auto

lemma collectReversePackageTree_grows_dom:
  "collectReversePackageTree_collectReversePackageTree_forEach_dom (Inl (p, nodes, r)) \<Longrightarrow>
     set r \<subseteq> set (collectReversePackageTree p nodes r)"
  "collectReversePackageTree_collectReversePackageTree_forEach_dom (Inr (ds, nodes, r)) \<Longrightarrow>
     set r \<subseteq> set (collectReversePackageTree_forEach ds nodes r)"
  by (induct rule: collectReversePackageTree_collectReversePackageTree_forEach.pinduct)
     (auto simp: collectReversePackageTree.psimps collectReversePackageTree_forEach.psimps
           split: option.splits)

termination collectReversePackageTree
proof (relation "inv_image (less_than <*lex*> less_than)
         (\<lambda>x. case x of Inl (p, nodes, r) \<Rightarrow> (unvisited nodes r, 0)
                       | Inr (ds, nodes, r) \<Rightarrow> (unvisited nodes r, Suc (length ds)))",
       goal_cases)
  case 1
  show ?case by (intro wf_inv_image wf_lex_prod wf_less_than)
next
  case (2 packageId nodes result pkg)
  then show ?case by (simp add: unvisited_less Set_has_def)
next
  case (3 parent parents nodes result)
  then show ?case by simp
next
  case (4 parent parents nodes result)
  then show ?case
    using unvisited_mono[OF collectReversePackageTree_grows_dom(1)[OF 4]]
    by (auto simp: le_less)
qed

declare collectReversePackageTree.simps [simp del]

subsection \<open>Orphans, broken dependencies, counts\<close>

definition isOrphaned :: "PackageNode \<Rightarrow> bool" where
  "isOrphaned pkg = (\<not> explicit pkg \<and> length (required_by pkg) = 0)"

text \<open>The object literal of a synthetic node; the fields it does not list are absent.\<close>

definition syntheticNode :: "string \<Rightarrow> PackageNode" where
  "syntheticNode dep =
     \<lparr>id_pkg = dep, explicit = False, version = ''missing'', repo = None,
      locally_built = None, url = None, depends_on = [], required_by = [],
      optional_depends_on = None, optional_required_by = None, broken = True\<rparr>"

definition nodeMap_of :: "PackageNode list \<Rightarrow> (string \<rightharpoonup> PackageNode)" where
  "nodeMap_of nodes = fold (\<lambda>node m. m(id_pkg node \<mapsto> node)) nodes Map.empty"

definition cleanedNodes_of :: "PackageNode list \<Rightarrow> PackageNode list" where
  "cleanedNodes_of nodes =
     map (\<lambda>node. node\<lparr>required_by := filter (\<lambda>dep. Map_has (nodeMap_of nodes) dep) (required_by node)\<rparr>)
       nodes"

definition brokenDeps_of :: "PackageNode list \<Rightarrow> string list" where
  "brokenDeps_of nodes =
     fold (\<lambda>node s. fold (\<lambda>dep s'. if \<not> Map_has (nodeMap_of nodes) dep then Set_add dep s' else s')
                       (depends_on node) s)
          (cleanedNodes_of nodes) []"

definition processBrokenDependencies :: "PackageNode list \<Rightarrow> PackageNode list" where
  "processBrokenDependencies nodes =
     (if length nodes = 0 then []
      else cleanedNodes_of nodes @ map syntheticNode (brokenDeps_of nodes))"

text \<open>
  The counts are JavaScript numbers; \<open>dependency\<close> is a difference, so they are integers
  here. The fields are \<open>explicit, dependency, broken, total\<close> in the source.
\<close>

record PackageCounts =
  explicit_n :: int
  dependency_n :: int
  broken_n :: int
  total_n :: int

definition countPackages :: "PackageNode list \<Rightarrow> PackageCounts" where
  "countPackages nodes =
     (let explicit' = int (length (filter (\<lambda>n. explicit n \<and> \<not> broken n) nodes));
          broken' = int (length (filter (\<lambda>n. broken n) nodes))
      in \<lparr>explicit_n = explicit',
          dependency_n = int (length nodes) - explicit' - broken',
          broken_n = broken',
          total_n = int (length nodes)\<rparr>)"

subsection \<open>Sorting\<close>

text \<open>
  \<open>Array.prototype.sort\<close> with a comparator is a stable sort: on a list, insertion of each
  element before the first one it is not after. The comparator of \<open>sortPackagesByName\<close>,
  \<open>(a, b) => a.id.localeCompare(b.id)\<close>, relies on the host's collation, which is a
  parameter \<open>localeCompare\<close> (negative, zero or positive) where it is needed.
\<close>

fun insert_sorted :: "('a \<Rightarrow> 'a \<Rightarrow> int) \<Rightarrow> 'a \<Rightarrow> 'a list \<Rightarrow> 'a list" where
  "insert_sorted cmp x [] = [x]"
| "insert_sorted cmp x (y # ys) =
     (if cmp x y \<le> 0 then x # y # ys else y # insert_sorted cmp x ys)"

definition Array_sort :: "('a \<Rightarrow> 'a \<Rightarrow> int) \<Rightarrow> 'a list \<Rightarrow> 'a list" where
  "Array_sort cmp xs = foldr (insert_sorted cmp) xs []"

text \<open>
  Comparison of the code units, left to right; on names made of lower-case ASCII letters
  every collation agrees with it. It is the comparator of the concrete runs below.
\<close>

fun compareUnits :: "nat list \<Rightarrow> nat list \<Rightarrow> int" where
  "compareUnits [] [] = 0"
| "compareUnits [] (y # ys) = - 1"
| "compareUnits (x # xs) [] = 1"
| "compareUnits (x # xs) (y # ys) =
     (if x < y then - 1 else if y < x then 1 else compareUnits xs ys)"

definition codeUnitCompare :: "string \<Rightarrow> string \<Rightarrow> int" where
  "codeUnitCompare a b = compareUnits (map of_char a) (map of_char b)"

section \<open>The Investigate view: sub-graph of the selected package\<close>

text \<open>
  \<open>DependencyDirection\<close> is the string union \<open>"forward" | "reverse" | "both"\<close>. A link
  carries the two names and a type, which \<open>getLinkType\<close> of \<open>@/lib/packageTypeUtils\<close>
  computes from two records; that function is not among the sources and is a parameter. Its
  first argument is \<open>nodes.find(...)!\<close>, which is \<open>undefined\<close> (\<open>None\<close>) for a name
  without record.
\<close>

datatype DependencyDirection = Forward | Reverse | Both

record 'lt PackageLink =
  source :: string
  target :: string
  type_lnk :: 'lt

definition addForwardLinks ::
  "(PackageNode option \<Rightarrow> PackageNode \<Rightarrow> 'lt) \<Rightarrow> PackageNode list \<Rightarrow> PackageNode \<Rightarrow> string list
     \<Rightarrow> string list \<times> 'lt PackageLink list \<Rightarrow> string list \<times> 'lt PackageLink list" where
  "addForwardLinks getLinkType nodes node treePackageIds =
     fold (\<lambda>dep (linkSet, subLinks).
            if Set_has treePackageIds dep then
              (let linkKey = id_pkg node @ ''->'' @ dep in
               if \<not> Set_has linkSet linkKey then
                 (Set_add linkKey linkSet,
                  subLinks @ [\<lparr>source = id_pkg node, target = dep,
                               type_lnk = getLinkType (find (\<lambda>n. id_pkg n = dep) nodes) node\<rparr>])
               else (linkSet, subLinks))
            else (linkSet, subLinks))
          (depends_on node)"

definition addReverseLinks ::
  "(PackageNode option \<Rightarrow> PackageNode \<Rightarrow> 'lt) \<Rightarrow> PackageNode list \<Rightarrow> PackageNode \<Rightarrow> string list
     \<Rightarrow> string list \<times> 'lt PackageLink list \<Rightarrow> string list \<times> 'lt PackageLink list" where
  "addReverseLinks getLinkType nodes node treePackageIds =
     fold (\<lambda>parent (linkSet, subLinks).
            if Set_has treePackageIds parent then
              (let linkKey = parent @ ''->'' @ id_pkg node in
               if \<not> Set_has linkSet linkKey then
                 (Set_add linkKey linkSet,
                  subLinks @ [\<lparr>source = parent, target = id_pkg node,
                               type_lnk = getLinkType (find (\<lambda>n. id_pkg n = parent) nodes) node\<rparr>])
               else (linkSet, subLinks))
            else (linkSet, subLinks))
          (required_by node)"

definition treePackageIds_of :: "PackageNode \<Rightarrow> PackageNode list \<Rightarrow> DependencyDirection \<Rightarrow> string list" where
  "treePackageIds_of selectedPackage nodes direction =
     (if direction = Forward then collectPackageTree (id_pkg selectedPackage) nodes []
      else if direction = Reverse then collectReversePackageTree (id_pkg selectedPackage) nodes []
      else fold Set_add (collectReversePackageTree (id_pkg selectedPackage) nodes [])
             (collectPackageTree (id_pkg selectedPackage) nodes []))"

definition subGraphData ::
  "(PackageNode option \<Rightarrow> PackageNode \<Rightarrow> 'lt) \<Rightarrow> PackageNode option \<Rightarrow> PackageNode list
     \<Rightarrow> DependencyDirection \<Rightarrow> PackageNode list \<times> 'lt PackageLink list" where
  "subGraphData getLinkType selectedPackage nodes direction =
     (case selectedPackage of
        None \<Rightarrow> ([], [])
      | Some sel \<Rightarrow>
          (let treePackageIds = treePackageIds_of sel nodes direction;
               subNodes = filter (\<lambda>n. Set_has treePackageIds (id_pkg n)) nodes;
               built = fold (\<lambda>node st.
                         (let st1 = (if direction = Forward \<or> direction = Both
                                     then addForwardLinks getLinkType nodes node treePackageIds st
                                     else st)
                          in if direction = Reverse \<or> direction = Both
                             then addReverseLinks getLinkType nodes node treePackageIds st1
                             else st1))
                       subNodes ([], [])
           in (subNodes, snd built)))"

section \<open>The same operations on arrays and records held by reference\<close>

text \<open>
  In the program a node list is an array of references to records, and a \<open>Set\<close> handed
  to a function is a reference too. What a call leaves of the objects that existed before
  it, and whether what it returns is new, is a matter of that store. The store holds the
  records, the arrays (lists of references to records) and the sets. A reference to a record
  or an array is its position in the store, so it exists exactly when its reference is below
  the length, and creating one appends it; the sets are held under numbers, of which
  \<open>next_Set\<close> is the first not yet given out. The lists of names inside a record are
  never written by any function and stay values.
\<close>

record heap =
  heap_objects :: "PackageNode list"
  heap_arrays :: "nat list list"
  heap_sets :: "nat \<Rightarrow> string list"
  next_Set :: nat

definition get_object :: "heap \<Rightarrow> nat \<Rightarrow> PackageNode" where
  "get_object h r = heap_objects h ! r"

definition get_array :: "heap \<Rightarrow> nat \<Rightarrow> nat list" where
  "get_array h a = heap_arrays h ! a"

definition get_Set :: "heap \<Rightarrow> nat \<Rightarrow> string list" where
  "get_Set h s = heap_sets h s"

definition read_nodes :: "heap \<Rightarrow> nat \<Rightarrow> PackageNode list" where
  "read_nodes h a = map (get_object h) (get_array h a)"

text \<open>
  An object literal, an array literal or spread, and \<open>new Set()\<close> create: the new object
  gets the next reference.
\<close>

definition new_objects :: "PackageNode list \<Rightarrow> heap \<Rightarrow> nat list \<times> heap" where
  "new_objects vs h =
     ([length (heap_objects h) ..< length (heap_objects h) + length vs],
      h\<lparr>heap_objects := heap_objects h @ vs\<rparr>)"

definition new_array :: "nat list \<Rightarrow> heap \<Rightarrow> nat \<times> heap" where
  "new_array rs h = (length (heap_arrays h), h\<lparr>heap_arrays := heap_arrays h @ [rs]\<rparr>)"

definition new_Set :: "heap \<Rightarrow> nat \<times> heap" where
  "new_Set h =
     (next_Set h, h\<lparr>heap_sets := (heap_sets h)(next_Set h := []), next_Set := Suc (next_Set h)\<rparr>)"

definition Set_add_h :: "string \<Rightarrow> nat \<Rightarrow> heap \<Rightarrow> heap" where
  "Set_add_h x s h = h\<lparr>heap_sets := (heap_sets h)(s := Set_add x (get_Set h s))\<rparr>"

text \<open>
  \<open>Array.prototype.map\<close> with a callback that returns an object literal makes one new
  record per element and a new array of them; \<open>filter\<close> makes a new array of the elements
  it keeps, the records themselves being shared; \<open>sort\<close> writes the sorted order into the
  array it is called on and returns that array.
\<close>

definition Array_map_h :: "(PackageNode \<Rightarrow> PackageNode) \<Rightarrow> nat \<Rightarrow> heap \<Rightarrow> nat \<times> heap" where
  "Array_map_h f a h =
     (let (rs, h1) = new_objects (map f (read_nodes h a)) h in new_array rs h1)"

definition Array_filter_h :: "(PackageNode \<Rightarrow> bool) \<Rightarrow> nat \<Rightarrow> heap \<Rightarrow> nat \<times> heap" where
  "Array_filter_h p a h = new_array (filter (\<lambda>r. p (get_object h r)) (get_array h a)) h"

definition Array_sort_h :: "(PackageNode \<Rightarrow> PackageNode \<Rightarrow> int) \<Rightarrow> nat \<Rightarrow> heap \<Rightarrow> nat \<times> heap" where
  "Array_sort_h cmp a h =
     (a, h\<lparr>heap_arrays := (heap_arrays h)
            [a := Array_sort (\<lambda>x y. cmp (get_object h x) (get_object h y)) (get_array h a)]\<rparr>)"

text \<open>\<open>sortPackagesByName\<close> is \<open>return packages.sort(...)\<close>.\<close>

definition sortPackagesByName ::
  "(string \<Rightarrow> string \<Rightarrow> int) \<Rightarrow> nat \<Rightarrow> heap \<Rightarrow> nat \<times> heap" where
  "sortPackagesByName localeCompare packages h =
     Array_sort_h (\<lambda>a b. localeCompare (id_pkg a) (id_pkg b)) packages h"

text \<open>
  \<open>processBrokenDependencies\<close>: \<open>cleanedNodes\<close> is a \<open>map\<close> with a spread literal,
  \<open>syntheticNodes\<close> a \<open>map\<close> with a literal over \<open>Array.from(brokenDeps)\<close>, the result a
  spread of both (the empty literal \<open>[]\<close> for an empty input); \<open>nodeMap\<close> and \<open>brokenDeps\<close>
  are the function's own.
\<close>

definition processBrokenDependencies_h :: "nat \<Rightarrow> heap \<Rightarrow> nat \<times> heap" where
  "processBrokenDependencies_h nodes h =
     (if length (get_array h nodes) = 0 then new_array [] h
      else
        (let nodeMap = nodeMap_of (read_nodes h nodes);
             (cleanedNodes, h1) =
               Array_map_h (\<lambda>node. node\<lparr>required_by :=
                                filter (\<lambda>dep. Map_has nodeMap dep) (required_by node)\<rparr>) nodes h;
             brokenDeps =
               fold (\<lambda>node s. fold (\<lambda>dep s'. if \<not> Map_has nodeMap dep then Set_add dep s' else s')
                                 (depends_on node) s)
                    (read_nodes h1 cleanedNodes) [];
             (synthetic, h2) = new_objects (map syntheticNode brokenDeps) h1;
             (syntheticNodes, h3) = new_array synthetic h2
         in new_array (get_array h3 cleanedNodes @ get_array h3 syntheticNodes) h3))"

text \<open>
  \<open>countPackages\<close> takes the lengths of two filtered arrays and of the input; the object
  it returns is a literal of four numbers.
\<close>

definition countPackages_h :: "nat \<Rightarrow> heap \<Rightarrow> PackageCounts \<times> heap" where
  "countPackages_h nodes h =
     (let (explicitNodes, h1) = Array_filter_h (\<lambda>n. explicit n \<and> \<not> broken n) nodes h;
          explicit' = int (length (get_array h1 explicitNodes));
          (brokenNodes, h2) = Array_filter_h (\<lambda>n. broken n) nodes h1;
          broken' = int (length (get_array h2 brokenNodes))
      in (\<lparr>explicit_n = explicit',
           dependency_n = int (length (get_array h2 nodes)) - explicit' - broken',
           broken_n = broken',
           total_n = int (length (get_array h2 nodes))\<rparr>, h2))"

text \<open>
  The two traversals on the store, statement by statement: \<open>result.has\<close> reads the set
  behind the reference \<open>result\<close>, \<open>result.add\<close> writes it, \<open>nodes.find\<close> reads the array
  behind \<open>nodes\<close> and the records it holds, and the recursive calls get the same two
  references. They terminate for the reason the traversals on values do: every call that
  goes on has added a name of the node list to the set.
\<close>

function collectPackageTree_h :: "string \<Rightarrow> nat \<Rightarrow> nat \<Rightarrow> heap \<Rightarrow> heap"
  and collectPackageTree_forEach_h :: "string list \<Rightarrow> nat \<Rightarrow> nat \<Rightarrow> heap \<Rightarrow> heap"
where
  "collectPackageTree_h packageId nodes result h =
     (if Set_has (get_Set h result) packageId then h
      else (case find (\<lambda>n. id_pkg n = packageId) (read_nodes (Set_add_h packageId result h) nodes) of
              None \<Rightarrow> Set_add_h packageId result h
            | Some pkg \<Rightarrow>
                collectPackageTree_forEach_h (depends_on pkg) nodes result
                  (Set_add_h packageId result h)))"
| "collectPackageTree_forEach_h [] nodes result h = h"
| "collectPackageTree_forEach_h (dep # deps) nodes result h =
     collectPackageTree_forEach_h deps nodes result (collectPackageTree_h dep nodes result h)"
  by pat_completeness auto

lemma read_nodes_Set_add_h [simp]: "read_nodes (Set_add_h x s h) nodes = read_nodes h nodes"
  by (simp add: Set_add_h_def read_nodes_def get_array_def get_object_def)

lemma get_Set_Set_add_h [simp]: "get_Set (Set_add_h x s h) s = Set_add x (get_Set h s)"
  by (simp add: Set_add_h_def get_Set_def)

lemma collectPackageTree_h_grows_dom:
  "collectPackageTree_h_collectPackageTree_forEach_h_dom (Inl (p, nodes, result, h)) \<Longrightarrow>
     read_nodes (collectPackageTree_h p nodes result h) nodes = read_nodes h nodes
     \<and> set (get_Set h result) \<subseteq> set (get_Set (collectPackageTree_h p nodes result h) result)"
  "collectPackageTree_h_collectPackageTree_forEach_h_dom (Inr (ds, nodes, result, h)) \<Longrightarrow>
     read_nodes (collectPackageTree_forEach_h ds nodes result h) nodes = read_nodes h nodes
     \<and> set (get_Set h result) \<subseteq> set (get_Set (collectPackageTree_forEach_h ds nodes result h) result)"
  by (induct rule: collectPackageTree_h_collectPackageTree_forEach_h.pinduct)
     (auto simp: collectPackageTree_h.psimps collectPackageTree_forEach_h.psimps
           split: option.splits)

termination collectPackageTree_h
proof (relation "inv_image (less_than <*lex*> less_than)
         (\<lambda>x. case x of
                Inl (p, nodes, result, h) \<Rightarrow> (unvisited (read_nodes h nodes) (get_Set h result), 0)
              | Inr (ds, nodes, result, h) \<Rightarrow>
                  (unvisited (read_nodes h nodes) (get_Set h result), Suc (length ds)))",
       goal_cases)
  case 1
  show ?case by (intro wf_inv_image wf_lex_prod wf_less_than)
next
  case (2 packageId nodes result h pkg)
  then show ?case by (simp add: unvisited_less Set_has_def)
next
  case (3 dep deps nodes result h)
  then show ?case by simp
next
  case (4 dep deps nodes result h)
  from collectPackageTree_h_grows_dom(1)[OF 4] show ?case
    using unvisited_mono[of "get_Set h result"
        "get_Set (collectPackageTree_h dep nodes result h) result" "read_nodes h nodes"]
    by (auto simp: le_less)
qed

declare collectPackageTree_h.simps [simp del]

function collectReversePackageTree_h :: "string \<Rightarrow> nat \<Rightarrow> nat \<Rightarrow> heap \<Rightarrow> heap"
  and collectReversePackageTree_forEach_h :: "string list \<Rightarrow> nat \<Rightarrow> nat \<Rightarrow> heap \<Rightarrow> heap"
where
  "collectReversePackageTree_h packageId nodes result h =
     (if Set_has (get_Set h result) packageId then h
      else (case find (\<lambda>n. id_pkg n = packageId) (read_nodes (Set_add_h packageId result h) nodes) of
              None \<Rightarrow> Set_add_h packageId result h
            | Some pkg \<Rightarrow>
                collectReversePackageTree_forEach_h (required_by pkg) nodes result
                  (Set_add_h packageId result h)))"
| "collectReversePackageTree_forEach_h [] nodes result h = h"
| "collectReversePackageTree_forEach_h (parent # parents) nodes result h =
     collectReversePackageTree_forEach_h parents nodes result
       (collectReversePackageTree_h parent nodes result h)"
  by pat_completeness auto

lemma collectReversePackageTree_h_grows_dom:
  "collectReversePackageTree_h_collectReversePackageTree_forEach_h_dom (Inl (p, nodes, result, h)) \<Longrightarrow>
     read_nodes (collectReversePackageTree_h p nodes result h) nodes = read_nodes h nodes
     \<and> set (get_Set h result)
           \<subseteq> set (get_Set (collectReversePackageTree_h p nodes result h) result)"
  "collectReversePackageTree_h_collectReversePackageTree_forEach_h_dom (Inr (ds, nodes, result, h)) \<Longrightarrow>
     read_nodes (collectReversePackageTree_forEach_h ds nodes result h) nodes = read_nodes h nodes
     \<and> set (get_Set h result)
           \<subseteq> set (get_Set (collectReversePackageTree_forEach_h ds nodes result h) result)"
  by (induct rule: collectReversePackageTree_h_collectReversePackageTree_forEach_h.pinduct)
     (auto simp: collectReversePackageTree_h.psimps collectReversePackageTree_forEach_h.psimps
           split: option.splits)

termination collectReversePackageTree_h
proof (relation "inv_image (less_than <*lex*> less_than)
         (\<lambda>x. case x of
                Inl (p, nodes, result, h) \<Rightarrow> (unvisited (read_nodes h nodes) (get_Set h result), 0)
              | Inr (ds, nodes, result, h) \<Rightarrow>
                  (unvisited (read_nodes h nodes) (get_Set h result), Suc (length ds)))",
       goal_cases)
  case 1
  show ?case by (intro wf_inv_image wf_lex_prod wf_less_than)
next
  case (2 packageId nodes result h pkg)
  then show ?case by (simp add: unvisited_less Set_has_def)
next
  case (3 parent parents nodes result h)
  then show ?case by simp
next
  case (4 parent parents nodes result h)
  from collectReversePackageTree_h_grows_dom(1)[OF 4] show ?case
    using unvisited_mono[of "get_Set h result"
        "get_Set (collectReversePackageTree_h parent nodes result h) result" "read_nodes h nodes"]
    by (auto simp: le_less)
qed

declare collectReversePackageTree_h.simps [simp del]

text \<open>
  The sub-graph: \<open>treePackageIds\<close> (and \<open>treePackageIdsReverse\<close> under \<open>both\<close>) is a new
  set, \<open>subNodes\<close> a \<open>filter\<close> of \<open>nodes\<close>, \<open>subLinks\<close> a new array of link literals, which
  hold names and no reference and are kept as a list. \<open>selectedPackage\<close> is a reference to a
  record or \<open>null\<close>.
\<close>

definition treePackageIds_h :: "nat \<Rightarrow> nat \<Rightarrow> DependencyDirection \<Rightarrow> heap \<Rightarrow> nat \<times> heap" where
  "treePackageIds_h selectedPackage nodes direction h =
     (let (treePackageIds, h1) = new_Set h;
          packageId = id_pkg (get_object h1 selectedPackage)
      in if direction = Forward
         then (treePackageIds, collectPackageTree_h packageId nodes treePackageIds h1)
         else if direction = Reverse
         then (treePackageIds, collectReversePackageTree_h packageId nodes treePackageIds h1)
         else
           (let h2 = collectPackageTree_h packageId nodes treePackageIds h1;
                (treePackageIdsReverse, h3) = new_Set h2;
                h4 = collectReversePackageTree_h packageId nodes treePackageIdsReverse h3
            in (treePackageIds,
                fold (\<lambda>id h'. Set_add_h id treePackageIds h') (get_Set h4 treePackageIdsReverse) h4)))"

definition subGraphData_h ::
  "(PackageNode option \<Rightarrow> PackageNode \<Rightarrow> 'lt) \<Rightarrow> nat option \<Rightarrow> nat \<Rightarrow> DependencyDirection \<Rightarrow> heap
     \<Rightarrow> (nat \<times> 'lt PackageLink list) \<times> heap" where
  "subGraphData_h getLinkType selectedPackage nodes direction h =
     (case selectedPackage of
        None \<Rightarrow> (let (subNodes, h1) = new_array [] h in ((subNodes, []), h1))
      | Some sel \<Rightarrow>
          (let (treePackageIds, h1) = treePackageIds_h sel nodes direction h;
               (subNodes, h2) =
                 Array_filter_h (\<lambda>n. Set_has (get_Set h1 treePackageIds) (id_pkg n)) nodes h1;
               built = fold (\<lambda>node st.
                         (let st1 = (if direction = Forward \<or> direction = Both
                                     then addForwardLinks getLinkType (read_nodes h2 nodes) node
                                            (get_Set h2 treePackageIds) st
                                     else st)
                          in if direction = Reverse \<or> direction = Both
                             then addReverseLinks getLinkType (read_nodes h2 nodes) node
                                    (get_Set h2 treePackageIds) st1
                             else st1))
                       (read_nodes h2 subNodes) ([], [])
           in ((subNodes, snd built), h2)))"

section \<open>collect-deps.sh: selection of the explicit packages\<close>

text \<open>
  The branches \<open>first\<close>, \<open>last\<close> and \<open>random\<close> of \<open>case "${FILTER_MODE}"\<close>, with the
  check the option parser makes of their argument (\<open>-z\<close> or not \<open>^[0-9]+$\<close>: \<open>exit 1\<close>).
  \<open>FILTER_VALUE\<close> is the argument, a string; \<open>explicit_array\<close> holds one line of
  \<open>pacman -Qqe\<close> per element.

  The branches \<open>first\<close> and \<open>last\<close> hand \<open>FILTER_VALUE\<close> to the shell's arithmetic
  (\<open>${explicit_array[@]:0:FILTER_VALUE}\<close> and \<open>$((... - FILTER_VALUE))\<close>). The shell reads a
  numeral that begins with \<open>0\<close> and has further digits in base 8 and any other in base 10,
  digit by digit in 64-bit signed integers, which wrap; a digit 8 or 9 in a base-8 numeral,
  and a negative length of the slice, are errors of the expansion: the shell prints a message,
  abandons the command it is in, here the whole \<open>if\<close> block of the selection, and goes on
  after it with nothing selected (\<open>ExpansionError\<close>).

  The \<open>random\<close> branch hands \<open>FILTER_VALUE\<close> to \<open>shuf -n\<close>, which reads it in base 10 and
  treats what exceeds its integers as no limit. The text that flows through this branch is
  kept as its list of lines:
  \<^item> \<open>printf '%s\n' "${explicit_array[@]}"\<close> writes one line per element, and one empty line
    for an array without elements;
  \<^item> \<open>shuf -n N\<close> writes the first \<open>N\<close> lines of a shuffle of its input (all of them when
    there are fewer); the shuffle it draws is the parameter \<open>shuffle\<close>. With \<open>N = 0\<close> it
    exits without reading, and \<open>printf\<close>, if it is still writing then, is killed by the
    closed pipe; under \<open>set -euo pipefail\<close> the script then exits with status 141. Whether
    that happens depends on how much there is to write and on timing: the parameter
    \<open>sigpipe\<close>;
  \<^item> \<open>$(...)\<close> removes the trailing newlines, that is the trailing empty lines;
  \<^item> \<open>mapfile -t selected_packages <<<"..."\<close> reads the text followed by a newline, so the
    empty text gives one empty element.
\<close>

datatype error = Exit nat | ExpansionError

datatype filter_mode = First | Last | Random

definition is_digit :: "char \<Rightarrow> bool" where
  "is_digit c = (48 \<le> (of_char c :: nat) \<and> (of_char c :: nat) \<le> 57)"

definition TODIGIT :: "char \<Rightarrow> int" where
  "TODIGIT c = int (of_char c) - 48"

definition wrap64 :: "int \<Rightarrow> int" where
  "wrap64 v = (v + 2 ^ 63) mod 2 ^ 64 - 2 ^ 63"

fun strlong_digits :: "int \<Rightarrow> int \<Rightarrow> string \<Rightarrow> error + int" where
  "strlong_digits base val [] = Inr val"
| "strlong_digits base val (c # s) =
     (if TODIGIT c \<ge> base then Inl ExpansionError
      else strlong_digits base (wrap64 (val * base + TODIGIT c)) s)"

definition strlong :: "string \<Rightarrow> error + int" where
  "strlong num =
     (case num of
        [] \<Rightarrow> Inr 0
      | c # s \<Rightarrow>
          if c = CHR ''0'' then (if s = [] then Inr 0 else strlong_digits 8 0 s)
          else strlong_digits 10 0 num)"

definition decimal_value :: "string \<Rightarrow> nat" where
  "decimal_value s = fold (\<lambda>c v. v * 10 + nat (TODIGIT c)) s 0"

definition printf_lines :: "string list \<Rightarrow> string list" where
  "printf_lines arr = (if arr = [] then [''''] else arr)"

definition shuf_n :: "(string list \<Rightarrow> string list) \<Rightarrow> nat \<Rightarrow> string list \<Rightarrow> string list" where
  "shuf_n shuffle n lines = take n (shuffle lines)"

definition command_substitution :: "string list \<Rightarrow> string list" where
  "command_substitution lines = rev (dropWhile (\<lambda>l. l = []) (rev lines))"

definition mapfile_here_string :: "string list \<Rightarrow> string list" where
  "mapfile_here_string lines = (if lines = [] then [''''] else lines)"

definition select_packages ::
  "(string list \<Rightarrow> string list) \<Rightarrow> bool \<Rightarrow> filter_mode \<Rightarrow> string \<Rightarrow> string list \<Rightarrow> error + string list" where
  "select_packages shuffle sigpipe FILTER_MODE FILTER_VALUE explicit_array =
     (if FILTER_VALUE = [] \<or> \<not> list_all is_digit FILTER_VALUE then Inl (Exit 1)
      else case FILTER_MODE of
        First \<Rightarrow>
          (case strlong FILTER_VALUE of
             Inl e \<Rightarrow> Inl e
           | Inr n \<Rightarrow>
               if n < 0 then Inl ExpansionError
               else Inr (take (nat n) explicit_array))
      | Last \<Rightarrow>
          (case strlong FILTER_VALUE of
             Inl e \<Rightarrow> Inl e
           | Inr n \<Rightarrow>
               (let start_idx = wrap64 (int (length explicit_array) - n);
                    start_idx' = (if start_idx < 0 then 0 else start_idx)
                in Inr (drop (nat start_idx') explicit_array)))
      | Random \<Rightarrow>
          if decimal_value FILTER_VALUE = 0 \<and> sigpipe then Inl (Exit 141)
          else (let random_pkgs = command_substitution
                        (shuf_n shuffle (decimal_value FILTER_VALUE) (printf_lines explicit_array))
                in Inr (mapfile_here_string random_pkgs)))"

text \<open>The decimal numeral of a number, without leading zero, as a user writes it.\<close>

fun decimal :: "nat \<Rightarrow> string" where
  "decimal n = (if n < 10 then [char_of (48 + n)]
                else decimal (n div 10) @ [char_of (48 + n mod 10)])"

declare decimal.simps [simp del]

section \<open>Notions the properties are stated with\<close>

text \<open>
  The \<open>dependsOn\<close> edges of a node list: from a name to each entry of the \<open>depends_on\<close>
  list of the record that \<open>nodes.find\<close> gives for the name. A name without record has no
  edge. Where the names of the list are unique this is the set of all pairs of a record's
  name and one of its \<open>depends_on\<close> entries (\<open>dependsOn_edges_distinct\<close> below).
\<close>

definition dependsOn_edges :: "PackageNode list \<Rightarrow> (string \<times> string) set" where
  "dependsOn_edges nodes =
     {(a, d). \<exists>pkg. find (\<lambda>n. id_pkg n = a) nodes = Some pkg \<and> d \<in> set (depends_on pkg)}"

text \<open>
  The names that some \<open>depends_on\<close> list of the node list mentions and no record of the
  list bears.
\<close>

definition missingTargets :: "PackageNode list \<Rightarrow> string set" where
  "missingTargets nodes =
     {d. \<exists>n \<in> set nodes. d \<in> set (depends_on n)} - id_pkg ` set nodes"

text \<open>
  The key under which a link is recorded in \<open>linkSet\<close>, and what the two helpers keep true
  of \<open>linkSet\<close> and \<open>subLinks\<close>: the key of every link pushed is in the set, and no two
  links pushed have the same key.
\<close>

definition linkKey_of :: "'lt PackageLink \<Rightarrow> string" where
  "linkKey_of l = source l @ ''->'' @ target l"

definition links_inv :: "string list \<times> 'lt PackageLink list \<Rightarrow> bool" where
  "links_inv st = (set (map linkKey_of (snd st)) \<subseteq> set (fst st) \<and> distinct (map linkKey_of (snd st)))"

text \<open>
  What makes a comparator usable for sorting: of any two values one is not after the
  other, and not being after is transitive; \<open>x\<close> is not after \<open>y\<close> when \<open>cmp x y \<le> 0\<close>.
\<close>

definition total_preorder_cmp :: "('a \<Rightarrow> 'a \<Rightarrow> int) \<Rightarrow> bool" where
  "total_preorder_cmp cmp =
     ((\<forall>x y. cmp x y \<le> 0 \<or> cmp y x \<le> 0)
      \<and> (\<forall>x y z. cmp x y \<le> 0 \<and> cmp y z \<le> 0 \<longrightarrow> cmp x z \<le> 0))"

text \<open>
  The graph of the end-to-end example: A, explicit, depends on B; B, a dependency, depends
  on C and is required by A; there is no C. The fields the example leaves open are fixed.
\<close>

definition exampleNode :: "string \<Rightarrow> bool \<Rightarrow> string list \<Rightarrow> string list \<Rightarrow> PackageNode" where
  "exampleNode name expl deps rdeps =
     \<lparr>id_pkg = name, explicit = expl, version = ''1.0'', repo = None, locally_built = None,
      url = None, depends_on = deps, required_by = rdeps, optional_depends_on = None,
      optional_required_by = None, broken = False\<rparr>"

definition exampleGraph :: "PackageNode list" where
  "exampleGraph = [exampleNode ''A'' True [''B''] [], exampleNode ''B'' False [''C''] [''A'']]"

text \<open>
  What a call keeps of a store: every record, array and set that existed is afterwards what
  it was; the store after the call may hold more. A reference to a record or an array is
  new when it lies beyond the store before the call.
\<close>

definition keeps_heap :: "heap \<Rightarrow> heap \<Rightarrow> bool" where
  "keeps_heap h h' =
     (prefix (heap_objects h) (heap_objects h') \<and> prefix (heap_arrays h) (heap_arrays h')
      \<and> next_Set h \<le> next_Set h'
      \<and> map (heap_sets h') [0 ..< next_Set h] = map (heap_sets h) [0 ..< next_Set h])"

definition new_in :: "'a list \<Rightarrow> 'a list \<Rightarrow> nat \<Rightarrow> bool" where
  "new_in old new r = (length old \<le> r \<and> r < length new)"

text \<open>
  A store with two records, named b and a, an array holding them in that order, a second
  array and two sets.
\<close>

definition exampleHeap :: heap where
  "exampleHeap =
     \<lparr>heap_objects = [exampleNode ''b'' True [] [], exampleNode ''a'' True [] []],
      heap_arrays = [[0, 1], [1]], heap_sets = (\<lambda>_. [])(0 := [''a'']), next_Set = 2\<rparr>"

section \<open>Counting\<close>

lemma length_filter_three:
  "length (filter (\<lambda>n. explicit n \<and> \<not> broken n) nodes)
     + length (filter (\<lambda>n. \<not> explicit n \<and> \<not> broken n) nodes)
     + length (filter (\<lambda>n. broken n) nodes) = length nodes"
  by (induction nodes) auto

text \<open>
  C4. For every node list the counts add up: explicit + dependency + broken = total, where
  explicit counts the nodes with \<open>explicit\<close> set that are not broken, broken counts the
  nodes with \<open>broken\<close> set, total is the length of the list and dependency is
  total - explicit - broken; dependency is then the number of nodes that are neither
  explicit nor broken, hence never negative.
\<close>

theorem countPackages_invariant:
  "explicit_n (countPackages nodes) + dependency_n (countPackages nodes)
       + broken_n (countPackages nodes) = total_n (countPackages nodes)
   \<and> explicit_n (countPackages nodes) = int (length (filter (\<lambda>n. explicit n \<and> \<not> broken n) nodes))
   \<and> broken_n (countPackages nodes) = int (length (filter (\<lambda>n. broken n) nodes))
   \<and> total_n (countPackages nodes) = int (length nodes)
   \<and> dependency_n (countPackages nodes)
       = total_n (countPackages nodes) - explicit_n (countPackages nodes) - broken_n (countPackages nodes)
   \<and> dependency_n (countPackages nodes)
       = int (length (filter (\<lambda>n. \<not> explicit n \<and> \<not> broken n) nodes))"
  using length_filter_three[of nodes] by (simp add: countPackages_def Let_def)

section \<open>Forward transitive closure\<close>

lemma collectPackageTree_sound:
  "set (collectPackageTree p nodes r) \<subseteq> set r \<union> (dependsOn_edges nodes)\<^sup>* `` {p}"
  "set (collectPackageTree_forEach ds nodes r) \<subseteq> set r \<union> (dependsOn_edges nodes)\<^sup>* `` set ds"
proof (induction p nodes r and ds nodes r rule: collectPackageTree_collectPackageTree_forEach.induct)
  case (1 packageId nodes result)
  show ?case
  proof (cases "Set_has result packageId")
    case True
    then show ?thesis by (simp add: collectPackageTree.simps)
  next
    case False
    show ?thesis
    proof (cases "find (\<lambda>n. id_pkg n = packageId) nodes")
      case None
      with False show ?thesis by (auto simp: collectPackageTree.simps)
    next
      case (Some pkg)
      have step: "(dependsOn_edges nodes)\<^sup>* `` set (depends_on pkg) \<subseteq> (dependsOn_edges nodes)\<^sup>* `` {packageId}"
      proof
        fix y assume "y \<in> (dependsOn_edges nodes)\<^sup>* `` set (depends_on pkg)"
        then obtain d where d: "d \<in> set (depends_on pkg)" "(d, y) \<in> (dependsOn_edges nodes)\<^sup>*"
          by auto
        from d(1) Some have "(packageId, d) \<in> dependsOn_edges nodes"
          by (auto simp: dependsOn_edges_def)
        with d(2) show "y \<in> (dependsOn_edges nodes)\<^sup>* `` {packageId}"
          by (auto intro: converse_rtrancl_into_rtrancl)
      qed
      from "1.IH"[OF False Some] step False Some show ?thesis
        by (auto simp: collectPackageTree.simps)
    qed
  qed
next
  case (2 nodes result)
  then show ?case by simp
next
  case (3 dep deps nodes result)
  then show ?case by auto
qed

lemma collectPackageTree_complete_aux:
  "set r \<subseteq> set (collectPackageTree p nodes r) \<and> p \<in> set (collectPackageTree p nodes r)
    \<and> (\<forall>x \<in> set (collectPackageTree p nodes r) - set r.
          dependsOn_edges nodes `` {x} \<subseteq> set (collectPackageTree p nodes r))"
  "set r \<subseteq> set (collectPackageTree_forEach ds nodes r) \<and> set ds \<subseteq> set (collectPackageTree_forEach ds nodes r)
    \<and> (\<forall>x \<in> set (collectPackageTree_forEach ds nodes r) - set r.
          dependsOn_edges nodes `` {x} \<subseteq> set (collectPackageTree_forEach ds nodes r))"
proof (induction p nodes r and ds nodes r rule: collectPackageTree_collectPackageTree_forEach.induct)
  case (1 packageId nodes result)
  show ?case
  proof (cases "Set_has result packageId")
    case True
    then show ?thesis by (simp add: Set_has_def collectPackageTree.simps)
  next
    case False
    show ?thesis
    proof (cases "find (\<lambda>n. id_pkg n = packageId) nodes")
      case None
      then have "dependsOn_edges nodes `` {packageId} = {}"
        by (auto simp: dependsOn_edges_def)
      with False None show ?thesis by (auto simp: collectPackageTree.simps)
    next
      case (Some pkg)
      let ?R = "set (collectPackageTree_forEach (depends_on pkg) nodes (Set_add packageId result))"
      have eq: "set (collectPackageTree packageId nodes result) = ?R"
        using False Some by (simp add: collectPackageTree.simps)
      from "1.IH"[OF False Some]
      have a: "insert packageId (set result) \<subseteq> ?R" and b: "set (depends_on pkg) \<subseteq> ?R"
        and c: "\<forall>x \<in> ?R - insert packageId (set result). dependsOn_edges nodes `` {x} \<subseteq> ?R"
        by auto
      have d: "dependsOn_edges nodes `` {packageId} \<subseteq> ?R"
        using b Some by (auto simp: dependsOn_edges_def)
      show ?thesis unfolding eq using a c d by blast
    qed
  qed
next
  case (2 nodes result)
  then show ?case by simp
next
  case (3 dep deps nodes result)
  let ?R1 = "set (collectPackageTree dep nodes result)"
  let ?R2 = "set (collectPackageTree_forEach deps nodes (collectPackageTree dep nodes result))"
  have eq: "set (collectPackageTree_forEach (dep # deps) nodes result) = ?R2" by simp
  from "3.IH"(1) have a1: "set result \<subseteq> ?R1" and b1: "dep \<in> ?R1"
    and c1: "\<forall>x \<in> ?R1 - set result. dependsOn_edges nodes `` {x} \<subseteq> ?R1" by auto
  from "3.IH"(2) have a2: "?R1 \<subseteq> ?R2" and b2: "set deps \<subseteq> ?R2"
    and c2: "\<forall>x \<in> ?R2 - ?R1. dependsOn_edges nodes `` {x} \<subseteq> ?R2" by auto
  show ?case unfolding eq using a1 b1 c1 a2 b2 c2 by (simp; blast)
qed

lemma closed_rtrancl_Image:
  assumes "r `` X \<subseteq> X" shows "r\<^sup>* `` X \<subseteq> X"
proof
  fix y assume "y \<in> r\<^sup>* `` X"
  then obtain x where "x \<in> X" "(x, y) \<in> r\<^sup>*" by auto
  from this(2) this(1) show "y \<in> X"
    by (induction rule: rtrancl_induct) (use assms in auto)
qed

lemma collectPackageTree_reach:
  "set (collectPackageTree start nodes []) = (dependsOn_edges nodes)\<^sup>* `` {start}"
proof
  show "set (collectPackageTree start nodes []) \<subseteq> (dependsOn_edges nodes)\<^sup>* `` {start}"
    using collectPackageTree_sound(1)[of start nodes "[]"] by simp
next
  let ?R = "set (collectPackageTree start nodes [])"
  from collectPackageTree_complete_aux(1)[of "[]" start nodes]
  have s: "start \<in> ?R" and c: "dependsOn_edges nodes `` ?R \<subseteq> ?R" by auto
  have "(dependsOn_edges nodes)\<^sup>* `` {start} \<subseteq> (dependsOn_edges nodes)\<^sup>* `` ?R"
    using s by auto
  also have "\<dots> \<subseteq> ?R" by (rule closed_rtrancl_Image[OF c])
  finally show "(dependsOn_edges nodes)\<^sup>* `` {start} \<subseteq> ?R" .
qed

lemma find_distinct_id:
  "distinct (map id_pkg nodes) \<Longrightarrow> m \<in> set nodes \<Longrightarrow> find (\<lambda>n. id_pkg n = id_pkg m) nodes = Some m"
proof (induction nodes)
  case Nil
  then show ?case by simp
next
  case (Cons n ns)
  show ?case
  proof (cases "m = n")
    case True
    then show ?thesis by simp
  next
    case False
    with Cons.prems have m: "m \<in> set ns" by simp
    with Cons.prems have "id_pkg n \<noteq> id_pkg m" by (auto simp: image_iff)
    with Cons m show ?thesis by simp
  qed
qed

lemma dependsOn_edges_distinct:
  assumes "distinct (map id_pkg nodes)"
  shows "dependsOn_edges nodes = {(id_pkg n, d) | n d. n \<in> set nodes \<and> d \<in> set (depends_on n)}"
proof (intro set_eqI iffI)
  fix e assume "e \<in> dependsOn_edges nodes"
  then obtain a d pkg where e: "e = (a, d)" and f: "find (\<lambda>n. id_pkg n = a) nodes = Some pkg"
    and d: "d \<in> set (depends_on pkg)"
    unfolding dependsOn_edges_def by blast
  from f have "pkg \<in> set nodes" "id_pkg pkg = a" by (auto simp: find_Some_iff)
  with e d show "e \<in> {(id_pkg n, d) | n d. n \<in> set nodes \<and> d \<in> set (depends_on n)}" by blast
next
  fix e assume "e \<in> {(id_pkg n, d) | n d. n \<in> set nodes \<and> d \<in> set (depends_on n)}"
  then obtain n d where e: "e = (id_pkg n, d)" and n: "n \<in> set nodes" and d: "d \<in> set (depends_on n)"
    by blast
  from find_distinct_id[OF assms n] d show "e \<in> dependsOn_edges nodes"
    unfolding dependsOn_edges_def e by blast
qed

lemma collectPackageTree_no_record:
  "find (\<lambda>n. id_pkg n = x) nodes = None \<Longrightarrow> collectPackageTree x nodes result = Set_add x result"
  by (simp add: collectPackageTree.simps Set_add_def)

text \<open>
  C2. For every node list and every start name, \<open>collectPackageTree\<close> started on the empty
  set computes exactly the names reachable from the start name along \<open>dependsOn\<close> edges,
  the start name included. It is idempotent: the union of the closures of the members of a
  closure is that closure. A name without record (a dangling target or an unknown start) is
  added to the set and nothing else is: no edge leaves it.
\<close>

theorem collectPackageTree_closure:
  "set (collectPackageTree start nodes []) = {x. (start, x) \<in> (dependsOn_edges nodes)\<^sup>*}
   \<and> (\<Union>m \<in> set (collectPackageTree start nodes []). set (collectPackageTree m nodes []))
        = set (collectPackageTree start nodes [])
   \<and> (find (\<lambda>n. id_pkg n = x) nodes = None \<longrightarrow>
         collectPackageTree x nodes result = Set_add x result
         \<and> (\<forall>y. (x, y) \<notin> dependsOn_edges nodes))"
proof (intro conjI impI)
  show "set (collectPackageTree start nodes []) = {x. (start, x) \<in> (dependsOn_edges nodes)\<^sup>*}"
    by (auto simp: collectPackageTree_reach)
  show "(\<Union>m \<in> set (collectPackageTree start nodes []). set (collectPackageTree m nodes []))
        = set (collectPackageTree start nodes [])"
    unfolding collectPackageTree_reach by (auto intro: rtrancl_trans)
next
  assume "find (\<lambda>n. id_pkg n = x) nodes = None"
  then show "collectPackageTree x nodes result = Set_add x result"
    by (rule collectPackageTree_no_record)
next
  assume "find (\<lambda>n. id_pkg n = x) nodes = None"
  then show "\<forall>y. (x, y) \<notin> dependsOn_edges nodes"
    by (simp add: dependsOn_edges_def)
qed

theorem collectPackageTree_closure_witness:
  "find (\<lambda>n. id_pkg n = ''C'') exampleGraph = None
   \<and> collectPackageTree ''C'' exampleGraph [''A''] = [''A'', ''C'']
   \<and> set (collectPackageTree ''A'' exampleGraph [])
        = {x. (''A'', x) \<in> (dependsOn_edges exampleGraph)\<^sup>*}"
  using collectPackageTree_closure[of "''A''" exampleGraph "''C''" "[''A'']"]
  by (simp add: exampleGraph_def exampleNode_def Set_add_def Set_has_def)

section \<open>Orphans\<close>

text \<open>
  C3 as stated, refuted: a synthetic record is broken and \<open>isOrphaned\<close> holds of it.
\<close>

theorem isOrphaned_broken_counterexample:
  "broken (syntheticNode ''Y'') \<and> isOrphaned (syntheticNode ''Y'')"
  by (simp add: syntheticNode_def isOrphaned_def)

text \<open>
  C3, amended. A record is classified as orphaned if and only if its \<open>explicit\<close> flag is
  false and its \<open>requiredBy\<close> list is empty; the \<open>broken\<close> flag is not consulted, so every
  synthetic record is classified as orphaned.
\<close>

theorem isOrphaned_iff:
  "isOrphaned pkg = (\<not> explicit pkg \<and> required_by pkg = [])
   \<and> isOrphaned (pkg\<lparr>broken := b\<rparr>) = isOrphaned pkg
   \<and> isOrphaned (syntheticNode dep)"
  by (simp add: isOrphaned_def syntheticNode_def)

section \<open>The end-to-end example\<close>

text \<open>
  C5. On the example graph the synthesis yields three nodes, A, B and a synthetic broken C;
  the counts of that output are explicit 1, dependency 1, broken 1, total 3; the forward
  closure from A is {A, B, C} and the reverse closure from B is {B, A}, on the input graph
  and on the output of the synthesis alike.
\<close>

theorem end_to_end_example:
  "processBrokenDependencies exampleGraph
     = [exampleNode ''A'' True [''B''] [], exampleNode ''B'' False [''C''] [''A''],
        syntheticNode ''C'']
   \<and> id_pkg (syntheticNode ''C'') = ''C'' \<and> broken (syntheticNode ''C'')
   \<and> countPackages (processBrokenDependencies exampleGraph)
       = \<lparr>explicit_n = 1, dependency_n = 1, broken_n = 1, total_n = 3\<rparr>
   \<and> set (collectPackageTree ''A'' exampleGraph []) = {''A'', ''B'', ''C''}
   \<and> set (collectPackageTree ''A'' (processBrokenDependencies exampleGraph) [])
       = {''A'', ''B'', ''C''}
   \<and> set (collectReversePackageTree ''B'' exampleGraph []) = {''B'', ''A''}
   \<and> set (collectReversePackageTree ''B'' (processBrokenDependencies exampleGraph) [])
       = {''B'', ''A''}"
proof -
  have p: "processBrokenDependencies exampleGraph
     = [exampleNode ''A'' True [''B''] [], exampleNode ''B'' False [''C''] [''A''],
        syntheticNode ''C'']"
    by (simp add: exampleGraph_def exampleNode_def processBrokenDependencies_def
        cleanedNodes_of_def brokenDeps_of_def nodeMap_of_def Map_has_def Set_add_def Set_has_def)
  have c: "countPackages [exampleNode ''A'' True [''B''] [], exampleNode ''B'' False [''C''] [''A''],
        syntheticNode ''C''] = \<lparr>explicit_n = 1, dependency_n = 1, broken_n = 1, total_n = 3\<rparr>"
    by (simp add: exampleNode_def countPackages_def syntheticNode_def)
  have f: "collectPackageTree ''A'' exampleGraph [] = [''A'', ''B'', ''C'']"
    by (simp add: exampleGraph_def exampleNode_def collectPackageTree.simps Set_add_def Set_has_def)
  have f': "collectPackageTree ''A'' [exampleNode ''A'' True [''B''] [],
        exampleNode ''B'' False [''C''] [''A''], syntheticNode ''C''] [] = [''A'', ''B'', ''C'']"
    by (simp add: exampleNode_def syntheticNode_def collectPackageTree.simps Set_add_def Set_has_def)
  have r: "collectReversePackageTree ''B'' exampleGraph [] = [''B'', ''A'']"
    by (simp add: exampleGraph_def exampleNode_def collectReversePackageTree.simps
        Set_add_def Set_has_def)
  have r': "collectReversePackageTree ''B'' [exampleNode ''A'' True [''B''] [],
        exampleNode ''B'' False [''C''] [''A''], syntheticNode ''C''] [] = [''B'', ''A'']"
    by (simp add: exampleNode_def syntheticNode_def collectReversePackageTree.simps
        Set_add_def Set_has_def)
  have s: "id_pkg (syntheticNode ''C'') = ''C'' \<and> broken (syntheticNode ''C'')"
    by (simp add: syntheticNode_def)
  show ?thesis
    unfolding p c f f' r r' using s by auto
qed

section \<open>Broken-dependency synthesis\<close>

lemma dom_fold_nodeMap:
  "dom (fold (\<lambda>node m. m(id_pkg node \<mapsto> node)) nodes m0) = dom m0 \<union> id_pkg ` set nodes"
  by (induction nodes arbitrary: m0) auto

lemma Map_has_nodeMap_of: "Map_has (nodeMap_of nodes) k = (k \<in> id_pkg ` set nodes)"
  using dom_fold_nodeMap[of nodes Map.empty]
  by (auto simp: Map_has_def nodeMap_of_def dom_def)

lemma cleanedNodes_of_eq:
  "cleanedNodes_of nodes
     = map (\<lambda>n. n\<lparr>required_by := filter (\<lambda>d. d \<in> id_pkg ` set nodes) (required_by n)\<rparr>) nodes"
  by (simp add: cleanedNodes_of_def Map_has_nodeMap_of)

lemma length_cleanedNodes_of [simp]: "length (cleanedNodes_of nodes) = length nodes"
  by (simp add: cleanedNodes_of_def)

lemma fold_add_missing:
  "set (fold (\<lambda>dep s'. if \<not> P dep then Set_add dep s' else s') ds s) = set s \<union> {d \<in> set ds. \<not> P d}"
  "distinct s \<Longrightarrow> distinct (fold (\<lambda>dep s'. if \<not> P dep then Set_add dep s' else s') ds s)"
  by (induction ds arbitrary: s) (auto simp: distinct_Set_add)

lemma fold_fold_add_missing:
  "set (fold (\<lambda>node s. fold (\<lambda>dep s'. if \<not> P dep then Set_add dep s' else s') (f node) s) ns s)
     = set s \<union> {d. \<exists>n \<in> set ns. d \<in> set (f n) \<and> \<not> P d}"
  "distinct s \<Longrightarrow>
     distinct (fold (\<lambda>node s. fold (\<lambda>dep s'. if \<not> P dep then Set_add dep s' else s') (f node) s) ns s)"
  by (induction ns arbitrary: s) (auto simp: fold_add_missing)

lemma set_brokenDeps_of: "set (brokenDeps_of nodes) = missingTargets nodes"
  unfolding brokenDeps_of_def fold_fold_add_missing(1)
  by (auto simp: Map_has_nodeMap_of missingTargets_def cleanedNodes_of_eq)

lemma distinct_brokenDeps_of: "distinct (brokenDeps_of nodes)"
  unfolding brokenDeps_of_def by (rule fold_fold_add_missing(2)) simp

lemma id_pkg_syntheticNode [simp]: "id_pkg (syntheticNode d) = d"
  by (simp add: syntheticNode_def)

lemma processBrokenDependencies_parts:
  "take (length nodes) (processBrokenDependencies nodes) = cleanedNodes_of nodes"
  "drop (length nodes) (processBrokenDependencies nodes) = map syntheticNode (brokenDeps_of nodes)"
proof -
  have e: "nodes = [] \<Longrightarrow> brokenDeps_of nodes = []"
    by (simp add: brokenDeps_of_def cleanedNodes_of_def)
  show "take (length nodes) (processBrokenDependencies nodes) = cleanedNodes_of nodes"
    by (simp add: processBrokenDependencies_def cleanedNodes_of_def)
  show "drop (length nodes) (processBrokenDependencies nodes) = map syntheticNode (brokenDeps_of nodes)"
    using e by (simp add: processBrokenDependencies_def)
qed

lemma processBrokenDependencies_append:
  "processBrokenDependencies nodes = cleanedNodes_of nodes @ map syntheticNode (brokenDeps_of nodes)"
  using processBrokenDependencies_parts[of nodes] append_take_drop_id[of "length nodes" "processBrokenDependencies nodes"]
  by simp

lemma filter_id_distinct:
  "distinct xs \<Longrightarrow> d \<in> set xs \<Longrightarrow> filter (\<lambda>n. id_pkg n = d) (map syntheticNode xs) = [syntheticNode d]"
  by (induction xs) (auto simp: filter_empty_conv)

text \<open>
  C1 as stated, refuted: the record X names Y in \<open>optional_depends_on\<close> only, there is no
  record Y, and the output is X alone; no synthetic record is made for Y.
\<close>

theorem processBrokenDependencies_optional_counterexample:
  "optional_depends_on ((exampleNode ''X'' True [] [])\<lparr>optional_depends_on := Some [''Y'']\<rparr>) = Some [''Y'']
   \<and> processBrokenDependencies [(exampleNode ''X'' True [] [])\<lparr>optional_depends_on := Some [''Y'']\<rparr>]
       = [(exampleNode ''X'' True [] [])\<lparr>optional_depends_on := Some [''Y'']\<rparr>]"
  by (simp add: exampleNode_def processBrokenDependencies_def cleanedNodes_of_def brokenDeps_of_def)

text \<open>
  C1, amended. For every node list, each \<open>dependsOn\<close> target name that is not the name of a
  record of the list gives rise to exactly one synthetic record with that name,
  \<open>broken = true\<close>, \<open>version = "missing"\<close> and empty \<open>dependsOn\<close> and \<open>requiredBy\<close>,
  whatever the number of records that refer to it; the synthetic records are appended after
  the real ones and nothing else is. The real records come first, in their order, each
  unchanged but for its \<open>requiredBy\<close> list, from which the entries that name no record of
  the list are dropped; their \<open>dependsOn\<close> lists are unchanged. Targets named only in
  \<open>optionalDependsOn\<close> are not looked at.
\<close>

theorem processBrokenDependencies_synthesis:
  "take (length nodes) (processBrokenDependencies nodes)
     = map (\<lambda>n. n\<lparr>required_by := filter (\<lambda>r. r \<in> id_pkg ` set nodes) (required_by n)\<rparr>) nodes
   \<and> map depends_on (take (length nodes) (processBrokenDependencies nodes)) = map depends_on nodes
   \<and> distinct (map id_pkg (drop (length nodes) (processBrokenDependencies nodes)))
   \<and> set (drop (length nodes) (processBrokenDependencies nodes)) = syntheticNode ` missingTargets nodes
   \<and> (d \<in> missingTargets nodes \<longrightarrow>
        filter (\<lambda>n. id_pkg n = d) (processBrokenDependencies nodes) = [syntheticNode d])
   \<and> id_pkg (syntheticNode d) = d \<and> broken (syntheticNode d) \<and> version (syntheticNode d) = ''missing''
   \<and> depends_on (syntheticNode d) = [] \<and> required_by (syntheticNode d) = []"
proof (intro conjI impI)
  show "take (length nodes) (processBrokenDependencies nodes)
     = map (\<lambda>n. n\<lparr>required_by := filter (\<lambda>r. r \<in> id_pkg ` set nodes) (required_by n)\<rparr>) nodes"
    by (simp add: processBrokenDependencies_parts cleanedNodes_of_eq)
  show "map depends_on (take (length nodes) (processBrokenDependencies nodes)) = map depends_on nodes"
    by (simp add: processBrokenDependencies_parts cleanedNodes_of_eq comp_def)
  show "distinct (map id_pkg (drop (length nodes) (processBrokenDependencies nodes)))"
    by (simp add: processBrokenDependencies_parts comp_def distinct_brokenDeps_of)
  show "set (drop (length nodes) (processBrokenDependencies nodes)) = syntheticNode ` missingTargets nodes"
    by (simp add: processBrokenDependencies_parts set_brokenDeps_of)
next
  assume d: "d \<in> missingTargets nodes"
  then have "d \<notin> id_pkg ` set nodes" by (simp add: missingTargets_def)
  then have "filter (\<lambda>n. id_pkg n = d) (cleanedNodes_of nodes) = []"
    by (auto simp: filter_empty_conv cleanedNodes_of_eq)
  moreover have "filter (\<lambda>n. id_pkg n = d) (map syntheticNode (brokenDeps_of nodes)) = [syntheticNode d]"
    using d by (intro filter_id_distinct) (simp_all add: distinct_brokenDeps_of set_brokenDeps_of)
  ultimately show "filter (\<lambda>n. id_pkg n = d) (processBrokenDependencies nodes) = [syntheticNode d]"
    by (simp add: processBrokenDependencies_append)
qed (simp_all add: syntheticNode_def)

theorem processBrokenDependencies_synthesis_witness:
  "''C'' \<in> missingTargets exampleGraph
   \<and> filter (\<lambda>n. id_pkg n = ''C'') (processBrokenDependencies exampleGraph) = [syntheticNode ''C'']"
proof -
  have m: "''C'' \<in> missingTargets exampleGraph"
    by (simp add: missingTargets_def exampleGraph_def exampleNode_def)
  with processBrokenDependencies_synthesis[of exampleGraph "''C''"] show ?thesis by blast
qed

section \<open>Edge symmetry after the cleanup\<close>

text \<open>
  C10 as stated, refuted: A depends on B, B does not list A in \<open>requiredBy\<close>, both are
  real; the cleanup returns the two records as they are.
\<close>

theorem cleanup_symmetry_counterexample:
  "processBrokenDependencies [exampleNode ''A'' True [''B''] [], exampleNode ''B'' False [] []]
     = [exampleNode ''A'' True [''B''] [], exampleNode ''B'' False [] []]
   \<and> id_pkg (exampleNode ''B'' False [] []) \<in> set (depends_on (exampleNode ''A'' True [''B''] []))
   \<and> id_pkg (exampleNode ''A'' True [''B''] []) \<notin> set (required_by (exampleNode ''B'' False [] []))
   \<and> \<not> broken (exampleNode ''A'' True [''B''] []) \<and> \<not> broken (exampleNode ''B'' False [] [])"
  by (simp add: exampleNode_def processBrokenDependencies_def cleanedNodes_of_def brokenDeps_of_def
      nodeMap_of_def Map_has_def)

text \<open>
  C10, amended. The cleanup preserves the symmetry, it does not establish it: if in the input
  every record A that lists the name of a record B in \<open>dependsOn\<close> is listed by name in B's
  \<open>requiredBy\<close>, then the same holds in the output for all real (not broken) records A
  and B; the cleanup removes from \<open>requiredBy\<close> only names that no record bears.
\<close>

theorem cleanup_preserves_symmetry:
  assumes "\<forall>a \<in> set nodes. \<forall>b \<in> set nodes.
             id_pkg b \<in> set (depends_on a) \<longrightarrow> id_pkg a \<in> set (required_by b)"
  shows "\<forall>a \<in> set (processBrokenDependencies nodes). \<forall>b \<in> set (processBrokenDependencies nodes).
           \<not> broken a \<and> \<not> broken b \<and> id_pkg b \<in> set (depends_on a)
             \<longrightarrow> id_pkg a \<in> set (required_by b)"
proof (intro ballI impI)
  fix a b
  assume a: "a \<in> set (processBrokenDependencies nodes)"
    and b: "b \<in> set (processBrokenDependencies nodes)"
    and h: "\<not> broken a \<and> \<not> broken b \<and> id_pkg b \<in> set (depends_on a)"
  have real: "x \<in> set (cleanedNodes_of nodes)"
    if "x \<in> set (processBrokenDependencies nodes)" "\<not> broken x" for x
    using that by (auto simp: processBrokenDependencies_append syntheticNode_def)
  from real[OF a] h obtain a0 where a0: "a0 \<in> set nodes"
    and a_eq: "a = a0\<lparr>required_by := filter (\<lambda>r. r \<in> id_pkg ` set nodes) (required_by a0)\<rparr>"
    by (auto simp: cleanedNodes_of_eq)
  from real[OF b] h obtain b0 where b0: "b0 \<in> set nodes"
    and b_eq: "b = b0\<lparr>required_by := filter (\<lambda>r. r \<in> id_pkg ` set nodes) (required_by b0)\<rparr>"
    by (auto simp: cleanedNodes_of_eq)
  from h have "id_pkg b0 \<in> set (depends_on a0)" by (simp add: a_eq b_eq)
  with assms a0 b0 have "id_pkg a0 \<in> set (required_by b0)" by blast
  with a0 show "id_pkg a \<in> set (required_by b)" by (simp add: a_eq b_eq)
qed

theorem cleanup_preserves_symmetry_witness:
  "\<not> broken (processBrokenDependencies exampleGraph ! 0)
   \<and> \<not> broken (processBrokenDependencies exampleGraph ! 1)
   \<and> id_pkg (processBrokenDependencies exampleGraph ! 1)
         \<in> set (depends_on (processBrokenDependencies exampleGraph ! 0))
   \<and> id_pkg (processBrokenDependencies exampleGraph ! 0)
         \<in> set (required_by (processBrokenDependencies exampleGraph ! 1))"
proof -
  have h: "\<forall>a \<in> set exampleGraph. \<forall>b \<in> set exampleGraph.
             id_pkg b \<in> set (depends_on a) \<longrightarrow> id_pkg a \<in> set (required_by b)"
    by (simp add: exampleGraph_def exampleNode_def)
  have out: "processBrokenDependencies exampleGraph
     = [exampleNode ''A'' True [''B''] [], exampleNode ''B'' False [''C''] [''A''],
        syntheticNode ''C'']"
    by (simp add: exampleGraph_def exampleNode_def processBrokenDependencies_def
        cleanedNodes_of_def brokenDeps_of_def nodeMap_of_def Map_has_def Set_add_def Set_has_def)
  have m: "processBrokenDependencies exampleGraph ! 0 \<in> set (processBrokenDependencies exampleGraph)"
    "processBrokenDependencies exampleGraph ! 1 \<in> set (processBrokenDependencies exampleGraph)"
    by (simp_all add: out)
  have pre: "\<not> broken (processBrokenDependencies exampleGraph ! 0)
       \<and> \<not> broken (processBrokenDependencies exampleGraph ! 1)
       \<and> id_pkg (processBrokenDependencies exampleGraph ! 1)
             \<in> set (depends_on (processBrokenDependencies exampleGraph ! 0))"
    by (simp add: out exampleNode_def)
  from cleanup_preserves_symmetry[OF h] m pre
  have "id_pkg (processBrokenDependencies exampleGraph ! 0)
         \<in> set (required_by (processBrokenDependencies exampleGraph ! 1))"
    by blast
  with pre show ?thesis by simp
qed

section \<open>Edges of the sub-graph\<close>

lemma fold_invariant:
  assumes "\<And>x st. I st \<Longrightarrow> I (f x st)" and "I st"
  shows "I (fold f xs st)"
  using assms(2) by (induction xs arbitrary: st) (auto intro: assms(1))

lemma links_inv_push:
  assumes "links_inv (linkSet, subLinks)" and "\<not> Set_has linkSet (linkKey_of l)"
  shows "links_inv (Set_add (linkKey_of l) linkSet, subLinks @ [l])"
  using assms by (auto simp: links_inv_def Set_has_def)

lemma addForwardLinks_inv:
  assumes "links_inv st"
  shows "links_inv (addForwardLinks getLinkType nodes node treePackageIds st)"
  unfolding addForwardLinks_def
proof (rule fold_invariant[where I = links_inv, OF _ assms])
  fix dep and st :: "string list \<times> 'a PackageLink list"
  assume inv: "links_inv st"
  obtain linkSet subLinks where st: "st = (linkSet, subLinks)" by (cases st)
  let ?l = "\<lparr>source = id_pkg node, target = dep,
             type_lnk = getLinkType (find (\<lambda>n. id_pkg n = dep) nodes) node\<rparr>"
  have k: "linkKey_of ?l = id_pkg node @ ''->'' @ dep" by (simp add: linkKey_of_def)
  show "links_inv ((\<lambda>dep (linkSet, subLinks).
            if Set_has treePackageIds dep then
              (let linkKey = id_pkg node @ ''->'' @ dep in
               if \<not> Set_has linkSet linkKey then
                 (Set_add linkKey linkSet,
                  subLinks @ [\<lparr>source = id_pkg node, target = dep,
                               type_lnk = getLinkType (find (\<lambda>n. id_pkg n = dep) nodes) node\<rparr>])
               else (linkSet, subLinks))
            else (linkSet, subLinks)) dep st)"
    using inv links_inv_push[of linkSet subLinks ?l] unfolding st k by (simp add: Let_def)
qed

lemma addReverseLinks_inv:
  assumes "links_inv st"
  shows "links_inv (addReverseLinks getLinkType nodes node treePackageIds st)"
  unfolding addReverseLinks_def
proof (rule fold_invariant[where I = links_inv, OF _ assms])
  fix parent and st :: "string list \<times> 'a PackageLink list"
  assume inv: "links_inv st"
  obtain linkSet subLinks where st: "st = (linkSet, subLinks)" by (cases st)
  let ?l = "\<lparr>source = parent, target = id_pkg node,
             type_lnk = getLinkType (find (\<lambda>n. id_pkg n = parent) nodes) node\<rparr>"
  have k: "linkKey_of ?l = parent @ ''->'' @ id_pkg node" by (simp add: linkKey_of_def)
  show "links_inv ((\<lambda>parent (linkSet, subLinks).
            if Set_has treePackageIds parent then
              (let linkKey = parent @ ''->'' @ id_pkg node in
               if \<not> Set_has linkSet linkKey then
                 (Set_add linkKey linkSet,
                  subLinks @ [\<lparr>source = parent, target = id_pkg node,
                               type_lnk = getLinkType (find (\<lambda>n. id_pkg n = parent) nodes) node\<rparr>])
               else (linkSet, subLinks))
            else (linkSet, subLinks)) parent st)"
    using inv links_inv_push[of linkSet subLinks ?l] unfolding st k by (simp add: Let_def)
qed

lemma subGraphData_keys_distinct:
  "distinct (map linkKey_of (snd (subGraphData getLinkType selectedPackage nodes direction)))"
proof (cases selectedPackage)
  case None
  then show ?thesis by (simp add: subGraphData_def)
next
  case (Some sel)
  have "links_inv (fold (\<lambda>node st.
           (let st1 = (if direction = Forward \<or> direction = Both
                       then addForwardLinks getLinkType nodes node ids st else st)
            in if direction = Reverse \<or> direction = Both
               then addReverseLinks getLinkType nodes node ids st1 else st1))
         ns ([], []))" for ids ns
    by (rule fold_invariant[where I = links_inv])
       (auto simp: Let_def links_inv_def[of "([], [])"] intro: addForwardLinks_inv addReverseLinks_inv)
  then show ?thesis
    using Some by (simp add: subGraphData_def Let_def links_inv_def)
qed

lemma distinct_pairs_of_keys:
  assumes "distinct (map linkKey_of ls)"
  shows "distinct (map (\<lambda>l. (source l, target l)) ls)"
proof -
  have "map linkKey_of ls = map (\<lambda>(s, t). s @ ''->'' @ t) (map (\<lambda>l. (source l, target l)) ls)"
    by (simp add: linkKey_of_def)
  with assms have "distinct (map (\<lambda>(s, t). s @ ''->'' @ t) (map (\<lambda>l. (source l, target l)) ls))"
    by simp
  then show ?thesis by (rule distinct_map[THEN iffD1, THEN conjunct1])
qed

text \<open>
  C6. For every node list, selected package and direction, the edge list of the sub-graph
  holds each ordered pair (source, target) at most once, whether the pair comes from a
  \<open>depends_on\<close> list or from a \<open>required_by\<close> list. Under \<open>both\<close>, a focal node A that
  depends on B and is required by B gives the two edges A\<rightarrow>B and B\<rightarrow>A, once each; and
  the edge A\<rightarrow>B of the example graph, found in A's \<open>depends_on\<close> and again in B's
  \<open>required_by\<close>, is listed once.
\<close>

theorem subGraphData_edges_distinct:
  "distinct (map (\<lambda>l. (source l, target l))
               (snd (subGraphData getLinkType selectedPackage nodes direction)))
   \<and> map (\<lambda>l. (source l, target l))
        (snd (subGraphData getLinkType (Some (exampleNode ''A'' True [''B''] [''B'']))
               [exampleNode ''A'' True [''B''] [''B''], exampleNode ''B'' False [''A''] [''A'']] Both))
       = [(''A'', ''B''), (''B'', ''A'')]
   \<and> map (\<lambda>l. (source l, target l))
        (snd (subGraphData getLinkType (Some (exampleNode ''A'' True [''B''] [])) exampleGraph Both))
       = [(''A'', ''B''), (''B'', ''C'')]"
proof (intro conjI)
  show "distinct (map (\<lambda>l. (source l, target l))
               (snd (subGraphData getLinkType selectedPackage nodes direction)))"
    by (rule distinct_pairs_of_keys) (rule subGraphData_keys_distinct)
  have t1: "treePackageIds_of (exampleNode ''A'' True [''B''] [''B''])
          [exampleNode ''A'' True [''B''] [''B''], exampleNode ''B'' False [''A''] [''A'']] Both
        = [''A'', ''B'']"
    by (simp add: treePackageIds_of_def exampleNode_def collectPackageTree.simps
        collectReversePackageTree.simps Set_add_def Set_has_def)
  show "map (\<lambda>l. (source l, target l))
        (snd (subGraphData getLinkType (Some (exampleNode ''A'' True [''B''] [''B'']))
               [exampleNode ''A'' True [''B''] [''B''], exampleNode ''B'' False [''A''] [''A'']] Both))
       = [(''A'', ''B''), (''B'', ''A'')]"
    by (simp add: subGraphData_def t1 Let_def)
       (simp add: exampleNode_def addForwardLinks_def addReverseLinks_def Set_add_def Set_has_def)
  have t2: "treePackageIds_of (exampleNode ''A'' True [''B''] []) exampleGraph Both
        = [''A'', ''B'', ''C'']"
    by (simp add: treePackageIds_of_def exampleGraph_def exampleNode_def collectPackageTree.simps
        collectReversePackageTree.simps Set_add_def Set_has_def)
  show "map (\<lambda>l. (source l, target l))
        (snd (subGraphData getLinkType (Some (exampleNode ''A'' True [''B''] [])) exampleGraph Both))
       = [(''A'', ''B''), (''B'', ''C'')]"
    by (simp add: subGraphData_def t2 Let_def)
       (simp add: exampleGraph_def exampleNode_def addForwardLinks_def addReverseLinks_def
          Set_add_def Set_has_def)
qed

section \<open>What the query operations write and create\<close>

lemma mset_insert_sorted: "mset (insert_sorted cmp x ys) = add_mset x (mset ys)"
  by (induction ys) auto

lemma mset_Array_sort: "mset (Array_sort cmp xs) = mset xs"
  unfolding Array_sort_def by (induction xs) (auto simp: mset_insert_sorted)

lemma set_insert_sorted: "set (insert_sorted cmp x ys) = insert x (set ys)"
  by (induction ys) auto

lemma sorted_insert_sorted:
  assumes "total_preorder_cmp cmp" and "sorted_wrt (\<lambda>a b. cmp a b \<le> 0) ys"
  shows "sorted_wrt (\<lambda>a b. cmp a b \<le> 0) (insert_sorted cmp x ys)"
  using assms(2)
proof (induction ys)
  case Nil
  then show ?case by simp
next
  case (Cons y ys)
  from assms(1) have tot: "\<And>a b. cmp a b \<le> 0 \<or> cmp b a \<le> 0"
    and trans: "\<And>a b c. cmp a b \<le> 0 \<Longrightarrow> cmp b c \<le> 0 \<Longrightarrow> cmp a c \<le> 0"
    unfolding total_preorder_cmp_def by blast+
  show ?case
  proof (cases "cmp x y \<le> 0")
    case True
    with Cons.prems trans show ?thesis by auto
  next
    case False
    with tot[of x y] have "cmp y x \<le> 0" by simp
    with False Cons show ?thesis by (auto simp: set_insert_sorted)
  qed
qed

lemma sorted_Array_sort:
  "total_preorder_cmp cmp \<Longrightarrow> sorted_wrt (\<lambda>a b. cmp a b \<le> 0) (Array_sort cmp xs)"
  unfolding Array_sort_def by (induction xs) (auto intro: sorted_insert_sorted)

lemma total_preorder_on_ids:
  "total_preorder_cmp cmp \<Longrightarrow> total_preorder_cmp (\<lambda>a b. cmp (id_pkg a) (id_pkg b))"
  unfolding total_preorder_cmp_def by blast

lemma compareUnits_total: "compareUnits x y \<le> 0 \<or> compareUnits y x \<le> 0"
  by (induction x y rule: compareUnits.induct) auto

lemma compareUnits_trans:
  "compareUnits x y \<le> 0 \<Longrightarrow> compareUnits y z \<le> 0 \<Longrightarrow> compareUnits x z \<le> 0"
proof (induction x y arbitrary: z rule: compareUnits.induct)
  case 1
  then show ?case by simp
next
  case (2 y ys)
  then show ?case by (cases z) auto
next
  case (3 x xs)
  then show ?case by simp
next
  case (4 x xs y ys)
  show ?case
  proof (cases z)
    case Nil
    with "4.prems" show ?thesis by (simp split: if_splits)
  next
    case (Cons c cs)
    show ?thesis
    proof (cases "x < y")
      case True
      with "4.prems" Cons show ?thesis by (auto split: if_splits)
    next
      case False
      with "4.prems" have xy: "x = y" and r1: "compareUnits xs ys \<le> 0"
        by (auto split: if_splits)
      show ?thesis
      proof (cases "y < c")
        case True
        with xy Cons show ?thesis by simp
      next
        case False
        with "4.prems"(2) Cons have yc: "y = c" and r2: "compareUnits ys cs \<le> 0"
          by (auto split: if_splits)
        from "4.IH"[OF _ _ r1 r2] xy yc Cons show ?thesis by simp
      qed
    qed
  qed
qed

lemma total_preorder_codeUnitCompare: "total_preorder_cmp codeUnitCompare"
  unfolding total_preorder_cmp_def
  unfolding codeUnitCompare_def
  using compareUnits_total compareUnits_trans by blast

lemma map_nth_append_upt:
  "map ((!) (xs @ ys)) [length xs ..< length xs + length ys] = ys"
  by (rule nth_equalityI) (simp_all add: nth_append)

lemma new_array_simps [simp]:
  "fst (new_array rs h) = length (heap_arrays h)"
  "heap_objects (snd (new_array rs h)) = heap_objects h"
  "heap_arrays (snd (new_array rs h)) = heap_arrays h @ [rs]"
  "heap_sets (snd (new_array rs h)) = heap_sets h"
  "next_Set (snd (new_array rs h)) = next_Set h"
  by (simp_all add: new_array_def)

lemma new_objects_simps [simp]:
  "fst (new_objects vs h) = [length (heap_objects h) ..< length (heap_objects h) + length vs]"
  "heap_objects (snd (new_objects vs h)) = heap_objects h @ vs"
  "heap_arrays (snd (new_objects vs h)) = heap_arrays h"
  "heap_sets (snd (new_objects vs h)) = heap_sets h"
  "next_Set (snd (new_objects vs h)) = next_Set h"
  by (simp_all add: new_objects_def)

lemma new_Set_simps [simp]:
  "fst (new_Set h) = next_Set h"
  "heap_objects (snd (new_Set h)) = heap_objects h"
  "heap_arrays (snd (new_Set h)) = heap_arrays h"
  "heap_sets (snd (new_Set h)) = (heap_sets h)(next_Set h := [])"
  "next_Set (snd (new_Set h)) = Suc (next_Set h)"
  by (simp_all add: new_Set_def)

lemma Array_map_h_simps [simp]:
  "fst (Array_map_h f a h) = length (heap_arrays h)"
  "heap_objects (snd (Array_map_h f a h)) = heap_objects h @ map f (read_nodes h a)"
  "heap_arrays (snd (Array_map_h f a h))
     = heap_arrays h @ [[length (heap_objects h) ..< length (heap_objects h) + length (get_array h a)]]"
  "heap_sets (snd (Array_map_h f a h)) = heap_sets h"
  "next_Set (snd (Array_map_h f a h)) = next_Set h"
  by (simp_all add: Array_map_h_def split_def Let_def read_nodes_def)

lemma Array_filter_h_simps [simp]:
  "fst (Array_filter_h p a h) = length (heap_arrays h)"
  "heap_objects (snd (Array_filter_h p a h)) = heap_objects h"
  "heap_arrays (snd (Array_filter_h p a h))
     = heap_arrays h @ [filter (\<lambda>r. p (get_object h r)) (get_array h a)]"
  "heap_sets (snd (Array_filter_h p a h)) = heap_sets h"
  "next_Set (snd (Array_filter_h p a h)) = next_Set h"
  by (simp_all add: Array_filter_h_def)

lemma read_nodes_Array_map_h:
  "read_nodes (snd (Array_map_h f a h)) (length (heap_arrays h)) = map f (read_nodes h a)"
proof -
  have "map ((!) (heap_objects h @ map f (read_nodes h a)))
          [length (heap_objects h) ..< length (heap_objects h) + length (map f (read_nodes h a))]
        = map f (read_nodes h a)"
    by (rule map_nth_append_upt)
  then show ?thesis
    by (simp add: read_nodes_def get_array_def get_object_def[abs_def])
qed

lemma read_nodes_Array_filter_h:
  "read_nodes (snd (Array_filter_h p a h)) (length (heap_arrays h)) = filter p (read_nodes h a)"
  by (simp add: read_nodes_def get_array_def get_object_def[abs_def] filter_map comp_def)

lemma map_Array_sort:
  "map g (Array_sort (\<lambda>x y. cmp (g x) (g y)) xs) = Array_sort cmp (map g xs)"
proof -
  have ins: "map g (insert_sorted (\<lambda>x y. cmp (g x) (g y)) x ys) = insert_sorted cmp (g x) (map g ys)"
    for x ys
    by (induction ys) auto
  show ?thesis
    unfolding Array_sort_def by (induction xs) (auto simp: ins)
qed

lemma sortPackagesByName_frame:
  "fst (sortPackagesByName lc packages h) = packages"
  "heap_objects (snd (sortPackagesByName lc packages h)) = heap_objects h"
  "heap_sets (snd (sortPackagesByName lc packages h)) = heap_sets h"
  "next_Set (snd (sortPackagesByName lc packages h)) = next_Set h"
  "length (heap_arrays (snd (sortPackagesByName lc packages h))) = length (heap_arrays h)"
  "r \<noteq> packages \<Longrightarrow> get_array (snd (sortPackagesByName lc packages h)) r = get_array h r"
  by (simp_all add: sortPackagesByName_def Array_sort_h_def get_array_def)

lemma sortPackagesByName_mset:
  "mset (get_array (snd (sortPackagesByName lc packages h)) packages) = mset (get_array h packages)"
  by (cases "packages < length (heap_arrays h)")
     (simp_all add: sortPackagesByName_def Array_sort_h_def get_array_def mset_Array_sort
        list_update_beyond)

lemma sortPackagesByName_reads:
  assumes "packages < length (heap_arrays h)"
  shows "read_nodes (snd (sortPackagesByName lc packages h)) packages
           = Array_sort (\<lambda>a b. lc (id_pkg a) (id_pkg b)) (read_nodes h packages)"
proof -
  have "get_array (snd (sortPackagesByName lc packages h)) packages
          = Array_sort (\<lambda>x y. lc (id_pkg (get_object h x)) (id_pkg (get_object h y)))
              (get_array h packages)"
    using assms by (simp add: sortPackagesByName_def Array_sort_h_def get_array_def)
  moreover have "get_object (snd (sortPackagesByName lc packages h)) = get_object h"
    by (simp add: fun_eq_iff get_object_def sortPackagesByName_def Array_sort_h_def)
  ultimately show ?thesis
    using map_Array_sort[where g = "get_object h" and cmp = "\<lambda>a b. lc (id_pkg a) (id_pkg b)"
        and xs = "get_array h packages"]
    by (simp add: read_nodes_def)
qed

lemma processBrokenDependencies_h_empty:
  assumes "get_array h nodes = []"
  shows "processBrokenDependencies_h nodes h = new_array [] h"
    and "processBrokenDependencies (read_nodes h nodes) = []"
  using assms by (simp_all add: processBrokenDependencies_h_def processBrokenDependencies_def
      read_nodes_def)

lemma processBrokenDependencies_h_nonempty:
  assumes "get_array h nodes \<noteq> []"
  defines "n \<equiv> length (heap_objects h)"
    and "cleaned \<equiv> cleanedNodes_of (read_nodes h nodes)"
    and "synth \<equiv> map syntheticNode (brokenDeps_of (read_nodes h nodes))"
  shows "fst (processBrokenDependencies_h nodes h) = length (heap_arrays h) + 2"
    and "heap_objects (snd (processBrokenDependencies_h nodes h)) = heap_objects h @ cleaned @ synth"
    and "heap_arrays (snd (processBrokenDependencies_h nodes h))
           = heap_arrays h @ [[n ..< n + length cleaned],
                              [n + length cleaned ..< n + length cleaned + length synth],
                              [n ..< n + length cleaned] @ [n + length cleaned ..< n + length cleaned + length synth]]"
    and "heap_sets (snd (processBrokenDependencies_h nodes h)) = heap_sets h"
    and "next_Set (snd (processBrokenDependencies_h nodes h)) = next_Set h"
proof -
  let ?f = "\<lambda>node. node\<lparr>required_by :=
              filter (\<lambda>dep. Map_has (nodeMap_of (read_nodes h nodes)) dep) (required_by node)\<rparr>"
  let ?h1 = "snd (Array_map_h ?f nodes h)"
  let ?c = "fst (Array_map_h ?f nodes h)"
  have c: "read_nodes ?h1 ?c = cleaned"
    by (simp add: read_nodes_Array_map_h cleaned_def cleanedNodes_of_def)
  have lc: "length cleaned = length (get_array h nodes)"
    by (simp add: cleaned_def cleanedNodes_of_def read_nodes_def)
  let ?bd = "fold (\<lambda>node s. fold (\<lambda>dep s'. if \<not> Map_has (nodeMap_of (read_nodes h nodes)) dep
                                              then Set_add dep s' else s') (depends_on node) s)
               (read_nodes ?h1 ?c) []"
  have bd: "?bd = brokenDeps_of (read_nodes h nodes)"
    unfolding c by (simp add: brokenDeps_of_def cleaned_def)
  have unfold: "processBrokenDependencies_h nodes h =
      (let (synthetic, h2) = new_objects (map syntheticNode ?bd) ?h1;
           (syntheticNodes, h3) = new_array synthetic h2
       in new_array (get_array h3 ?c @ get_array h3 syntheticNodes) h3)"
    using assms(1) by (simp add: processBrokenDependencies_h_def Let_def split_def)
  have objs1: "heap_objects ?h1 = heap_objects h @ cleaned"
    by (simp add: cleaned_def cleanedNodes_of_def)
  show "fst (processBrokenDependencies_h nodes h) = length (heap_arrays h) + 2"
    unfolding unfold by (simp add: split_def Let_def)
  show "heap_objects (snd (processBrokenDependencies_h nodes h)) = heap_objects h @ cleaned @ synth"
    unfolding unfold bd by (simp add: split_def Let_def synth_def cleaned_def cleanedNodes_of_def)
  show "heap_sets (snd (processBrokenDependencies_h nodes h)) = heap_sets h"
    unfolding unfold by (simp add: split_def Let_def)
  show "next_Set (snd (processBrokenDependencies_h nodes h)) = next_Set h"
    unfolding unfold by (simp add: split_def Let_def)
  show "heap_arrays (snd (processBrokenDependencies_h nodes h))
           = heap_arrays h @ [[n ..< n + length cleaned],
                              [n + length cleaned ..< n + length cleaned + length synth],
                              [n ..< n + length cleaned] @ [n + length cleaned ..< n + length cleaned + length synth]]"
    unfolding unfold bd
    by (simp add: split_def Let_def synth_def get_array_def nth_append n_def
          cleaned_def cleanedNodes_of_def read_nodes_def)
qed

lemma processBrokenDependencies_h_frame:
  "keeps_heap h (snd (processBrokenDependencies_h nodes h))"
  "heap_sets (snd (processBrokenDependencies_h nodes h)) = heap_sets h"
  "next_Set (snd (processBrokenDependencies_h nodes h)) = next_Set h"
  "new_in (heap_arrays h) (heap_arrays (snd (processBrokenDependencies_h nodes h)))
     (fst (processBrokenDependencies_h nodes h))"
  "list_all (new_in (heap_objects h) (heap_objects (snd (processBrokenDependencies_h nodes h))))
     (get_array (snd (processBrokenDependencies_h nodes h)) (fst (processBrokenDependencies_h nodes h)))"
  "read_nodes (snd (processBrokenDependencies_h nodes h)) (fst (processBrokenDependencies_h nodes h))
     = processBrokenDependencies (read_nodes h nodes)"
proof -
  let ?res = "fst (processBrokenDependencies_h nodes h)"
  let ?h' = "snd (processBrokenDependencies_h nodes h)"
  have all: "keeps_heap h ?h' \<and> heap_sets ?h' = heap_sets h \<and> next_Set ?h' = next_Set h
      \<and> new_in (heap_arrays h) (heap_arrays ?h') ?res
      \<and> list_all (new_in (heap_objects h) (heap_objects ?h')) (get_array ?h' ?res)
      \<and> read_nodes ?h' ?res = processBrokenDependencies (read_nodes h nodes)"
  proof (cases "get_array h nodes = []")
    case True
    from processBrokenDependencies_h_empty[OF True] show ?thesis
      by (simp add: keeps_heap_def new_in_def get_array_def read_nodes_def)
  next
    case False
    let ?n = "length (heap_objects h)"
    let ?cleaned = "cleanedNodes_of (read_nodes h nodes)"
    let ?synth = "map syntheticNode (brokenDeps_of (read_nodes h nodes))"
    note p = processBrokenDependencies_h_nonempty[OF False]
    have "[?n ..< ?n + length ?cleaned + length ?synth]
            = [?n ..< ?n + length ?cleaned] @ [?n + length ?cleaned ..< ?n + length ?cleaned + length ?synth]"
      by (rule upt_add_eq_append) simp
    then have arr: "get_array ?h' ?res = [?n ..< ?n + length (?cleaned @ ?synth)]"
      by (simp add: get_array_def p nth_append add.assoc)
    have "read_nodes ?h' ?res = map ((!) (heap_objects ?h')) (get_array ?h' ?res)"
      by (simp add: read_nodes_def get_object_def[abs_def])
    also have "\<dots> = map ((!) (heap_objects h @ (?cleaned @ ?synth)))
                       [?n ..< ?n + length (?cleaned @ ?synth)]"
      by (simp only: arr p(2))
    also have "\<dots> = ?cleaned @ ?synth"
      by (rule map_nth_append_upt)
    finally have rd: "read_nodes ?h' ?res = ?cleaned @ ?synth" .
    have ne: "read_nodes h nodes \<noteq> []" using False by (simp add: read_nodes_def)
    have pure: "processBrokenDependencies (read_nodes h nodes) = ?cleaned @ ?synth"
      using ne by (simp add: processBrokenDependencies_def)
    have fresh: "list_all (new_in (heap_objects h) (heap_objects ?h')) (get_array ?h' ?res)"
      unfolding arr by (simp add: list_all_iff new_in_def p)
    show ?thesis
      using rd pure fresh by (simp add: keeps_heap_def new_in_def p)
  qed
  show "keeps_heap h ?h'" "heap_sets ?h' = heap_sets h" "next_Set ?h' = next_Set h"
    "new_in (heap_arrays h) (heap_arrays ?h') ?res"
    "list_all (new_in (heap_objects h) (heap_objects ?h')) (get_array ?h' ?res)"
    "read_nodes ?h' ?res = processBrokenDependencies (read_nodes h nodes)"
    using all by simp_all
qed

lemma countPackages_h_frame:
  "keeps_heap h (snd (countPackages_h nodes h))"
  "heap_objects (snd (countPackages_h nodes h)) = heap_objects h"
  "heap_sets (snd (countPackages_h nodes h)) = heap_sets h"
  "next_Set (snd (countPackages_h nodes h)) = next_Set h"
  by (simp_all add: countPackages_h_def split_def Let_def keeps_heap_def)

lemma countPackages_h_reads:
  assumes "nodes < length (heap_arrays h)"
  shows "fst (countPackages_h nodes h) = countPackages (read_nodes h nodes)"
proof -
  show ?thesis
    using assms
    by (simp add: countPackages_h_def countPackages_def split_def Let_def get_array_def
          nth_append read_nodes_def get_object_def filter_map comp_def)
qed

lemma get_object_sets [simp]:
  "get_object (h\<lparr>heap_sets := ss\<rparr>) = get_object h"
  "get_object (snd (new_Set h)) = get_object h"
  by (simp_all add: fun_eq_iff get_object_def)

lemma get_array_sets [simp]:
  "get_array (h\<lparr>heap_sets := ss\<rparr>) = get_array h"
  "get_array (snd (new_Set h)) = get_array h"
  by (simp_all add: fun_eq_iff get_array_def)

lemma read_nodes_sets [simp]:
  "read_nodes (h\<lparr>heap_sets := ss\<rparr>) nodes = read_nodes h nodes"
  "read_nodes (snd (new_Set h)) nodes = read_nodes h nodes"
  by (simp_all add: read_nodes_def)

lemma heap_eqI:
  "heap_objects a = heap_objects b \<Longrightarrow> heap_arrays a = heap_arrays b
     \<Longrightarrow> (\<And>s. heap_sets a s = heap_sets b s) \<Longrightarrow> next_Set a = next_Set b
     \<Longrightarrow> a = (b :: heap)"
  by (cases a, cases b) (simp add: fun_eq_iff)

lemma heap_sets_upd_same:
  "h\<lparr>heap_sets := (heap_sets h)(s := get_Set h s)\<rparr> = h"
  by (rule heap_eqI) (simp_all add: get_Set_def)

lemma collectPackageTree_h_eq:
  "collectPackageTree_h p nodes result h
     = h\<lparr>heap_sets := (heap_sets h)
          (result := collectPackageTree p (read_nodes h nodes) (get_Set h result))\<rparr>"
  "collectPackageTree_forEach_h ds nodes result h
     = h\<lparr>heap_sets := (heap_sets h)
          (result := collectPackageTree_forEach ds (read_nodes h nodes) (get_Set h result))\<rparr>"
proof (induction p nodes result h and ds nodes result h
    rule: collectPackageTree_h_collectPackageTree_forEach_h.induct)
  case (1 packageId nodes result h)
  show ?case
  proof (cases "Set_has (get_Set h result) packageId")
    case True
    have l: "collectPackageTree_h packageId nodes result h = h"
      using True by (simp add: collectPackageTree_h.simps)
    have r: "collectPackageTree packageId (read_nodes h nodes) (get_Set h result)
               = get_Set h result"
      using True by (simp add: collectPackageTree.simps)
    show ?thesis
      unfolding l r by (rule heap_sets_upd_same[symmetric])
  next
    case False
    show ?thesis
    proof (cases "find (\<lambda>n. id_pkg n = packageId) (read_nodes h nodes)")
      case None
      with False have "collectPackageTree_h packageId nodes result h
            = Set_add_h packageId result h"
        "collectPackageTree packageId (read_nodes h nodes) (get_Set h result)
            = Set_add packageId (get_Set h result)"
        by (simp_all add: collectPackageTree_h.simps collectPackageTree.simps)
      then show ?thesis
        by (simp only: Set_add_h_def)
    next
      case (Some pkg)
      from Some have "find (\<lambda>n. id_pkg n = packageId) (read_nodes (Set_add_h packageId result h) nodes)
          = Some pkg" by simp
      from "1.IH"[OF False this] False Some show ?thesis
        by (simp add: collectPackageTree_h.simps collectPackageTree.simps)
           (rule heap_eqI; simp add: Set_add_h_def get_Set_def)
    qed
  qed
next
  case (2 nodes result h)
  show ?case by (rule heap_eqI) (simp_all add: get_Set_def)
next
  case (3 dep deps nodes result h)
  let ?h1 = "collectPackageTree_h dep nodes result h"
  have rn: "read_nodes ?h1 nodes = read_nodes h nodes"
    unfolding "3.IH"(1) by (simp add: read_nodes_def get_array_def get_object_def)
  have gs: "get_Set ?h1 result = collectPackageTree dep (read_nodes h nodes) (get_Set h result)"
    unfolding "3.IH"(1) by (simp add: get_Set_def)
  have "collectPackageTree_forEach_h (dep # deps) nodes result h
      = collectPackageTree_forEach_h deps nodes result ?h1" by simp
  also have "\<dots> = ?h1\<lparr>heap_sets := (heap_sets ?h1)
          (result := collectPackageTree_forEach deps (read_nodes ?h1 nodes) (get_Set ?h1 result))\<rparr>"
    by (rule "3.IH"(2))
  also have "\<dots> = h\<lparr>heap_sets := (heap_sets h)
          (result := collectPackageTree_forEach (dep # deps) (read_nodes h nodes) (get_Set h result))\<rparr>"
    unfolding rn gs unfolding "3.IH"(1) by simp
  finally show ?case .
qed

lemma collectReversePackageTree_h_eq:
  "collectReversePackageTree_h p nodes result h
     = h\<lparr>heap_sets := (heap_sets h)
          (result := collectReversePackageTree p (read_nodes h nodes) (get_Set h result))\<rparr>"
  "collectReversePackageTree_forEach_h ds nodes result h
     = h\<lparr>heap_sets := (heap_sets h)
          (result := collectReversePackageTree_forEach ds (read_nodes h nodes) (get_Set h result))\<rparr>"
proof (induction p nodes result h and ds nodes result h
    rule: collectReversePackageTree_h_collectReversePackageTree_forEach_h.induct)
  case (1 packageId nodes result h)
  show ?case
  proof (cases "Set_has (get_Set h result) packageId")
    case True
    have l: "collectReversePackageTree_h packageId nodes result h = h"
      using True by (simp add: collectReversePackageTree_h.simps)
    have r: "collectReversePackageTree packageId (read_nodes h nodes) (get_Set h result)
               = get_Set h result"
      using True by (simp add: collectReversePackageTree.simps)
    show ?thesis
      unfolding l r by (rule heap_sets_upd_same[symmetric])
  next
    case False
    show ?thesis
    proof (cases "find (\<lambda>n. id_pkg n = packageId) (read_nodes h nodes)")
      case None
      with False have "collectReversePackageTree_h packageId nodes result h
            = Set_add_h packageId result h"
        "collectReversePackageTree packageId (read_nodes h nodes) (get_Set h result)
            = Set_add packageId (get_Set h result)"
        by (simp_all add: collectReversePackageTree_h.simps collectReversePackageTree.simps)
      then show ?thesis
        by (simp only: Set_add_h_def)
    next
      case (Some pkg)
      from Some have "find (\<lambda>n. id_pkg n = packageId) (read_nodes (Set_add_h packageId result h) nodes)
          = Some pkg" by simp
      from "1.IH"[OF False this] False Some show ?thesis
        by (simp add: collectReversePackageTree_h.simps collectReversePackageTree.simps)
           (rule heap_eqI; simp add: Set_add_h_def get_Set_def)
    qed
  qed
next
  case (2 nodes result h)
  show ?case by (rule heap_eqI) (simp_all add: get_Set_def)
next
  case (3 parent parents nodes result h)
  let ?h1 = "collectReversePackageTree_h parent nodes result h"
  have rn: "read_nodes ?h1 nodes = read_nodes h nodes"
    unfolding "3.IH"(1) by (simp add: read_nodes_def get_array_def get_object_def)
  have gs: "get_Set ?h1 result
      = collectReversePackageTree parent (read_nodes h nodes) (get_Set h result)"
    unfolding "3.IH"(1) by (simp add: get_Set_def)
  have "collectReversePackageTree_forEach_h (parent # parents) nodes result h
      = collectReversePackageTree_forEach_h parents nodes result ?h1" by simp
  also have "\<dots> = ?h1\<lparr>heap_sets := (heap_sets ?h1)
          (result := collectReversePackageTree_forEach parents (read_nodes ?h1 nodes)
                       (get_Set ?h1 result))\<rparr>"
    by (rule "3.IH"(2))
  also have "\<dots> = h\<lparr>heap_sets := (heap_sets h)
          (result := collectReversePackageTree_forEach (parent # parents) (read_nodes h nodes)
                       (get_Set h result))\<rparr>"
    unfolding rn gs unfolding "3.IH"(1) by simp
  finally show ?case .
qed

lemma collectReversePackageTree_grows:
  "set r \<subseteq> set (collectReversePackageTree p nodes r)"
  "set r \<subseteq> set (collectReversePackageTree_forEach ds nodes r)"
  by (induction p nodes r and ds nodes r
        rule: collectReversePackageTree_collectReversePackageTree_forEach.induct)
     (auto simp: collectReversePackageTree.simps split: option.splits)

lemma collectPackageTree_grows:
  "set r \<subseteq> set (collectPackageTree p nodes r)"
  using collectPackageTree_complete_aux(1)[of r p nodes] by simp

lemma collectPackageTree_h_frame:
  "heap_objects (collectPackageTree_h p nodes result h) = heap_objects h"
  "heap_arrays (collectPackageTree_h p nodes result h) = heap_arrays h"
  "next_Set (collectPackageTree_h p nodes result h) = next_Set h"
  "s \<noteq> result \<Longrightarrow> get_Set (collectPackageTree_h p nodes result h) s = get_Set h s"
  "set (get_Set h result) \<subseteq> set (get_Set (collectPackageTree_h p nodes result h) result)"
  "get_Set (collectPackageTree_h p nodes result h) result
     = collectPackageTree p (read_nodes h nodes) (get_Set h result)"
  using collectPackageTree_grows[of "get_Set h result" p "read_nodes h nodes"]
  by (simp_all add: collectPackageTree_h_eq get_Set_def)

lemma collectReversePackageTree_h_frame:
  "heap_objects (collectReversePackageTree_h p nodes result h) = heap_objects h"
  "heap_arrays (collectReversePackageTree_h p nodes result h) = heap_arrays h"
  "next_Set (collectReversePackageTree_h p nodes result h) = next_Set h"
  "s \<noteq> result \<Longrightarrow> get_Set (collectReversePackageTree_h p nodes result h) s = get_Set h s"
  "set (get_Set h result)
     \<subseteq> set (get_Set (collectReversePackageTree_h p nodes result h) result)"
  "get_Set (collectReversePackageTree_h p nodes result h) result
     = collectReversePackageTree p (read_nodes h nodes) (get_Set h result)"
  using collectReversePackageTree_grows(1)[of "get_Set h result" p "read_nodes h nodes"]
  by (simp_all add: collectReversePackageTree_h_eq get_Set_def)

lemma fold_Set_add_h:
  "fold (\<lambda>x h'. Set_add_h x s h') xs h
     = h\<lparr>heap_sets := (heap_sets h)(s := fold Set_add xs (get_Set h s))\<rparr>"
proof (induction xs arbitrary: h)
  case Nil
  have "fold (\<lambda>x h'. Set_add_h x s h') [] h = h" "fold Set_add [] (get_Set h s) = get_Set h s"
    by simp_all
  then show ?case
    by (simp only: heap_sets_upd_same)
next
  case (Cons x xs)
  show ?case
    by (simp add: Cons.IH) (rule heap_eqI; simp add: Set_add_h_def get_Set_def)
qed

lemma map_upd_beyond:
  "n \<le> k \<Longrightarrow> map (f(k := v)) [0 ..< n] = map f [0 ..< n]"
  by simp

lemma treePackageIds_h_result:
  "fst (treePackageIds_h sel nodes direction h) = next_Set h"
  "heap_objects (snd (treePackageIds_h sel nodes direction h)) = heap_objects h"
  "heap_arrays (snd (treePackageIds_h sel nodes direction h)) = heap_arrays h"
  "next_Set h \<le> next_Set (snd (treePackageIds_h sel nodes direction h))"
  "map (heap_sets (snd (treePackageIds_h sel nodes direction h))) [0 ..< next_Set h]
     = map (heap_sets h) [0 ..< next_Set h]"
  "get_Set (snd (treePackageIds_h sel nodes direction h)) (next_Set h)
     = treePackageIds_of (get_object h sel) (read_nodes h nodes) direction"
proof -
  let ?h1 = "snd (new_Set h)"
  have rn1: "read_nodes ?h1 nodes = read_nodes h nodes"
    by (simp add: read_nodes_def get_array_def get_object_def)
  have go1: "get_object ?h1 sel = get_object h sel" by (simp add: get_object_def)
  have gs1: "get_Set ?h1 (next_Set h) = []" by (simp add: get_Set_def)
  have all: "fst (treePackageIds_h sel nodes direction h) = next_Set h
     \<and> heap_objects (snd (treePackageIds_h sel nodes direction h)) = heap_objects h
     \<and> heap_arrays (snd (treePackageIds_h sel nodes direction h)) = heap_arrays h
     \<and> next_Set h \<le> next_Set (snd (treePackageIds_h sel nodes direction h))
     \<and> map (heap_sets (snd (treePackageIds_h sel nodes direction h))) [0 ..< next_Set h]
         = map (heap_sets h) [0 ..< next_Set h]
     \<and> get_Set (snd (treePackageIds_h sel nodes direction h)) (next_Set h)
         = treePackageIds_of (get_object h sel) (read_nodes h nodes) direction"
  proof (cases direction)
    case Forward
    then show ?thesis
      by (simp add: treePackageIds_h_def split_def Let_def collectPackageTree_h_eq
            treePackageIds_of_def rn1 go1 gs1 get_Set_def)
  next
    case Reverse
    then show ?thesis
      by (simp add: treePackageIds_h_def split_def Let_def collectReversePackageTree_h_eq
            treePackageIds_of_def rn1 go1 gs1 get_Set_def)
  next
    case Both
    then show ?thesis
      by (simp add: treePackageIds_h_def split_def Let_def collectPackageTree_h_eq
            collectReversePackageTree_h_eq fold_Set_add_h
            treePackageIds_of_def get_Set_def)
  qed
  show "fst (treePackageIds_h sel nodes direction h) = next_Set h"
    "heap_objects (snd (treePackageIds_h sel nodes direction h)) = heap_objects h"
    "heap_arrays (snd (treePackageIds_h sel nodes direction h)) = heap_arrays h"
    "next_Set h \<le> next_Set (snd (treePackageIds_h sel nodes direction h))"
    "map (heap_sets (snd (treePackageIds_h sel nodes direction h))) [0 ..< next_Set h]
       = map (heap_sets h) [0 ..< next_Set h]"
    "get_Set (snd (treePackageIds_h sel nodes direction h)) (next_Set h)
       = treePackageIds_of (get_object h sel) (read_nodes h nodes) direction"
    using all by simp_all
qed

lemma subGraphData_h_frame:
  fixes getLinkType :: "PackageNode option \<Rightarrow> PackageNode \<Rightarrow> 'lt"
    and selectedPackage :: "nat option" and nodes :: nat
    and direction :: DependencyDirection and h :: heap
  defines "out \<equiv> subGraphData_h getLinkType selectedPackage nodes direction h"
  shows "heap_objects (snd out) = heap_objects h"
    and "keeps_heap h (snd out)"
    and "new_in (heap_arrays h) (heap_arrays (snd out)) (fst (fst out))"
    and "set (get_array (snd out) (fst (fst out))) \<subseteq> set (get_array h nodes)"
    and "nodes < length (heap_arrays h) \<Longrightarrow>
           (read_nodes (snd out) (fst (fst out)), snd (fst out))
             = subGraphData getLinkType (map_option (get_object h) selectedPackage)
                 (read_nodes h nodes) direction"
proof -
  have all: "heap_objects (snd out) = heap_objects h \<and> keeps_heap h (snd out)
     \<and> new_in (heap_arrays h) (heap_arrays (snd out)) (fst (fst out))
     \<and> set (get_array (snd out) (fst (fst out))) \<subseteq> set (get_array h nodes)
     \<and> (nodes < length (heap_arrays h) \<longrightarrow>
           (read_nodes (snd out) (fst (fst out)), snd (fst out))
             = subGraphData getLinkType (map_option (get_object h) selectedPackage)
                 (read_nodes h nodes) direction)"
  proof (cases selectedPackage)
    case None
    then show ?thesis
      by (simp add: out_def subGraphData_h_def subGraphData_def split_def Let_def keeps_heap_def
            new_in_def get_array_def read_nodes_def)
  next
    case (Some sel)
    let ?ids = "treePackageIds_of (get_object h sel) (read_nodes h nodes) direction"
    let ?p = "\<lambda>n. Set_has ?ids (id_pkg n)"
    obtain tp h1 where t_eq: "treePackageIds_h sel nodes direction h = (tp, h1)"
      by (cases "treePackageIds_h sel nodes direction h")
    note t = treePackageIds_h_result[where sel = sel and nodes = nodes and direction = direction
        and h = h, unfolded t_eq fst_conv snd_conv]
    have ids: "get_Set h1 tp = ?ids"
      by (simp add: t(1) t(6))
    have go1: "get_object h1 = get_object h"
      by (simp add: fun_eq_iff get_object_def t(2))
    have ga1: "get_array h1 = get_array h"
      by (simp add: fun_eq_iff get_array_def t(3))
    obtain sub h2 where f_eq: "Array_filter_h ?p nodes h1 = (sub, h2)"
      by (cases "Array_filter_h ?p nodes h1")
    note f = Array_filter_h_simps[of ?p nodes h1, unfolded f_eq fst_conv snd_conv]
    have sub: "sub = length (heap_arrays h)" by (simp add: f(1) t(3))
    have objs2: "heap_objects h2 = heap_objects h" by (simp add: f(2) t(2))
    have arrs2: "heap_arrays h2
        = heap_arrays h @ [filter (\<lambda>r. ?p (get_object h r)) (get_array h nodes)]"
      by (simp add: f(3) t(3) go1 ga1)
    have sets2: "heap_sets h2 = heap_sets h1" by (simp add: f(4))
    have next2: "next_Set h2 = next_Set h1" by (simp add: f(5))
    have ids2: "get_Set h2 tp = ?ids"
      using ids by (simp add: get_Set_def sets2)
    have go2: "get_object h2 = get_object h"
      by (simp add: fun_eq_iff get_object_def objs2)
    have rsub: "read_nodes h2 sub = filter ?p (read_nodes h nodes)"
      by (simp add: read_nodes_def get_array_def arrs2 sub go2 filter_map comp_def)
    have unfold: "out =
       ((sub,
         snd (fold (\<lambda>node st.
                (let st1 = (if direction = Forward \<or> direction = Both
                            then addForwardLinks getLinkType (read_nodes h2 nodes) node ?ids st
                            else st)
                 in if direction = Reverse \<or> direction = Both
                    then addReverseLinks getLinkType (read_nodes h2 nodes) node ?ids st1
                    else st1))
              (filter ?p (read_nodes h nodes)) ([], []))), h2)"
      unfolding out_def subGraphData_h_def Some option.case t_eq prod.case Let_def ids f_eq
        ids2 rsub ..
    have rn: "read_nodes h2 nodes = read_nodes h nodes" if "nodes < length (heap_arrays h)"
      using that by (simp add: read_nodes_def get_array_def arrs2 nth_append go2)
    have sub_set: "set (get_array h2 sub) \<subseteq> set (get_array h nodes)"
      by (auto simp: get_array_def arrs2 sub)
    have pure: "subGraphData getLinkType (Some (get_object h sel)) (read_nodes h nodes) direction
       = (filter ?p (read_nodes h nodes),
          snd (fold (\<lambda>node st.
                (let st1 = (if direction = Forward \<or> direction = Both
                            then addForwardLinks getLinkType (read_nodes h nodes) node ?ids st
                            else st)
                 in if direction = Reverse \<or> direction = Both
                    then addReverseLinks getLinkType (read_nodes h nodes) node ?ids st1
                    else st1))
              (filter ?p (read_nodes h nodes)) ([], [])))"
      by (simp add: subGraphData_def Let_def)
    have refine: "(read_nodes h2 sub,
         snd (fold (\<lambda>node st.
                (let st1 = (if direction = Forward \<or> direction = Both
                            then addForwardLinks getLinkType (read_nodes h2 nodes) node ?ids st
                            else st)
                 in if direction = Reverse \<or> direction = Both
                    then addReverseLinks getLinkType (read_nodes h2 nodes) node ?ids st1
                    else st1))
              (filter ?p (read_nodes h nodes)) ([], [])))
       = subGraphData getLinkType (Some (get_object h sel)) (read_nodes h nodes) direction"
      if a: "nodes < length (heap_arrays h)"
      unfolding pure rn[OF a] rsub ..
    show ?thesis
      unfolding unfold fst_conv snd_conv Some option.map
      using sub_set refine
      by (simp add: objs2 arrs2 sets2 next2 t(4) t(5) keeps_heap_def new_in_def sub)
  qed
  show "heap_objects (snd out) = heap_objects h" "keeps_heap h (snd out)"
    "new_in (heap_arrays h) (heap_arrays (snd out)) (fst (fst out))"
    "set (get_array (snd out) (fst (fst out))) \<subseteq> set (get_array h nodes)"
    using all by simp_all
  show "(read_nodes (snd out) (fst (fst out)), snd (fst out))
             = subGraphData getLinkType (map_option (get_object h) selectedPackage)
                 (read_nodes h nodes) direction" if "nodes < length (heap_arrays h)"
    using all that by simp
qed

text \<open>
  C7 as stated, refuted: array 0 of the example store holds the records b, a;
  \<open>sortPackagesByName\<close> returns the reference 0 it was given, and afterwards array 0 holds
  a, b: the argument has been reordered.
\<close>

theorem sortPackagesByName_counterexample:
  "read_nodes exampleHeap 0 = [exampleNode ''b'' True [] [], exampleNode ''a'' True [] []]
   \<and> fst (sortPackagesByName codeUnitCompare 0 exampleHeap) = 0
   \<and> read_nodes (snd (sortPackagesByName codeUnitCompare 0 exampleHeap)) 0
       = [exampleNode ''a'' True [] [], exampleNode ''b'' True [] []]"
  by (simp add: exampleHeap_def sortPackagesByName_def Array_sort_h_def Array_sort_def
      read_nodes_def get_array_def get_object_def exampleNode_def codeUnitCompare_def)

text \<open>
  C7, amended. \<open>sortPackagesByName\<close> sorts its argument in place and returns it: the array
  returned is the argument array itself, which afterwards holds the same records, each
  unchanged, in alphabetical order (for a comparator that is a total preorder), and no
  other array, no record and no set is written. Every other query operation leaves what
  existed before the call as it was, and what it returns is newly constructed:
  broken-node synthesis returns a new array of new records, whose contents are those of the
  function on values; counting creates arrays of its own and returns the counts of the
  function on values; sub-graph extraction returns a new array, holding records of the
  input list, and the links of the function on values, and the sets it writes are new; the
  closures write no record and no array, create no set, and of the sets write only the one
  handed to them as \<open>result\<close>, to which they only add, and which afterwards holds what
  the traversal on values gives.
\<close>

theorem query_operations_frame:
  "fst (sortPackagesByName lc packages h) = packages
   \<and> heap_objects (snd (sortPackagesByName lc packages h)) = heap_objects h
   \<and> heap_sets (snd (sortPackagesByName lc packages h)) = heap_sets h
   \<and> next_Set (snd (sortPackagesByName lc packages h)) = next_Set h
   \<and> mset (get_array (snd (sortPackagesByName lc packages h)) packages) = mset (get_array h packages)
   \<and> (r \<noteq> packages \<longrightarrow> get_array (snd (sortPackagesByName lc packages h)) r = get_array h r)
   \<and> (packages < length (heap_arrays h) \<longrightarrow>
        read_nodes (snd (sortPackagesByName lc packages h)) packages
          = Array_sort (\<lambda>a b. lc (id_pkg a) (id_pkg b)) (read_nodes h packages))
   \<and> (packages < length (heap_arrays h) \<and> total_preorder_cmp lc \<longrightarrow>
        sorted_wrt (\<lambda>a b. lc (id_pkg a) (id_pkg b) \<le> 0)
          (read_nodes (snd (sortPackagesByName lc packages h)) packages))
   \<and> keeps_heap h (snd (processBrokenDependencies_h nodes h))
   \<and> new_in (heap_arrays h) (heap_arrays (snd (processBrokenDependencies_h nodes h)))
        (fst (processBrokenDependencies_h nodes h))
   \<and> list_all (new_in (heap_objects h) (heap_objects (snd (processBrokenDependencies_h nodes h))))
        (get_array (snd (processBrokenDependencies_h nodes h))
           (fst (processBrokenDependencies_h nodes h)))
   \<and> read_nodes (snd (processBrokenDependencies_h nodes h)) (fst (processBrokenDependencies_h nodes h))
       = processBrokenDependencies (read_nodes h nodes)
   \<and> keeps_heap h (snd (countPackages_h nodes h))
   \<and> heap_objects (snd (countPackages_h nodes h)) = heap_objects h
   \<and> (nodes < length (heap_arrays h) \<longrightarrow>
        fst (countPackages_h nodes h) = countPackages (read_nodes h nodes))
   \<and> heap_objects (collectPackageTree_h p nodes result h) = heap_objects h
   \<and> heap_arrays (collectPackageTree_h p nodes result h) = heap_arrays h
   \<and> (s \<noteq> result \<longrightarrow> get_Set (collectPackageTree_h p nodes result h) s = get_Set h s)
   \<and> next_Set (collectPackageTree_h p nodes result h) = next_Set h
   \<and> set (get_Set h result) \<subseteq> set (get_Set (collectPackageTree_h p nodes result h) result)
   \<and> get_Set (collectPackageTree_h p nodes result h) result
       = collectPackageTree p (read_nodes h nodes) (get_Set h result)
   \<and> heap_objects (collectReversePackageTree_h p nodes result h) = heap_objects h
   \<and> heap_arrays (collectReversePackageTree_h p nodes result h) = heap_arrays h
   \<and> (s \<noteq> result \<longrightarrow> get_Set (collectReversePackageTree_h p nodes result h) s = get_Set h s)
   \<and> next_Set (collectReversePackageTree_h p nodes result h) = next_Set h
   \<and> set (get_Set h result) \<subseteq> set (get_Set (collectReversePackageTree_h p nodes result h) result)
   \<and> get_Set (collectReversePackageTree_h p nodes result h) result
       = collectReversePackageTree p (read_nodes h nodes) (get_Set h result)
   \<and> heap_objects (snd (subGraphData_h getLinkType selectedPackage nodes direction h)) = heap_objects h
   \<and> keeps_heap h (snd (subGraphData_h getLinkType selectedPackage nodes direction h))
   \<and> new_in (heap_arrays h)
        (heap_arrays (snd (subGraphData_h getLinkType selectedPackage nodes direction h)))
        (fst (fst (subGraphData_h getLinkType selectedPackage nodes direction h)))
   \<and> set (get_array (snd (subGraphData_h getLinkType selectedPackage nodes direction h))
             (fst (fst (subGraphData_h getLinkType selectedPackage nodes direction h))))
        \<subseteq> set (get_array h nodes)
   \<and> (nodes < length (heap_arrays h) \<longrightarrow>
        (read_nodes (snd (subGraphData_h getLinkType selectedPackage nodes direction h))
           (fst (fst (subGraphData_h getLinkType selectedPackage nodes direction h))),
         snd (fst (subGraphData_h getLinkType selectedPackage nodes direction h)))
          = subGraphData getLinkType (map_option (get_object h) selectedPackage)
              (read_nodes h nodes) direction)"
proof -
  have sorted: "sorted_wrt (\<lambda>a b. lc (id_pkg a) (id_pkg b) \<le> 0)
          (read_nodes (snd (sortPackagesByName lc packages h)) packages)"
    if "packages < length (heap_arrays h) \<and> total_preorder_cmp lc"
  proof -
    from that have "total_preorder_cmp (\<lambda>a b. lc (id_pkg a) (id_pkg b))"
      by (intro total_preorder_on_ids) simp
    from sorted_Array_sort[OF this] that show ?thesis
      by (simp add: sortPackagesByName_reads)
  qed
  show ?thesis
    by (intro conjI impI sorted sortPackagesByName_frame sortPackagesByName_mset
          sortPackagesByName_reads processBrokenDependencies_h_frame countPackages_h_frame
          countPackages_h_reads collectPackageTree_h_frame collectReversePackageTree_h_frame
          subGraphData_h_frame) simp_all
qed

theorem query_operations_frame_witness:
  "get_array (snd (sortPackagesByName codeUnitCompare 0 exampleHeap)) 1 = get_array exampleHeap 1
   \<and> sorted_wrt (\<lambda>a b. codeUnitCompare (id_pkg a) (id_pkg b) \<le> 0)
        (read_nodes (snd (sortPackagesByName codeUnitCompare 0 exampleHeap)) 0)
   \<and> fst (countPackages_h 0 exampleHeap) = countPackages (read_nodes exampleHeap 0)
   \<and> get_Set (collectPackageTree_h ''a'' 0 1 exampleHeap) 0 = get_Set exampleHeap 0
   \<and> get_Set (collectReversePackageTree_h ''a'' 0 1 exampleHeap) 0 = get_Set exampleHeap 0"
proof -
  have ne: "(1::nat) \<noteq> 0" "(0::nat) \<noteq> 1" by simp_all
  have len: "0 < length (heap_arrays exampleHeap)" by (simp add: exampleHeap_def)
  note t = query_operations_frame[where lc = codeUnitCompare and h = exampleHeap
      and packages = 0 and r = 1 and nodes = 0 and p = "''a''" and result = 1 and s = 0
      and getLinkType = "\<lambda>_ _. ()" and selectedPackage = None and direction = Forward]
  from t ne len total_preorder_codeUnitCompare show ?thesis by blast
qed

section \<open>Selection of the explicit packages\<close>

lemma of_char_digit: "d < 10 \<Longrightarrow> (of_char (char_of (48 + d :: nat)) :: nat) = 48 + d"
  by simp

lemma TODIGIT_digit: "d < 10 \<Longrightarrow> TODIGIT (char_of (48 + d :: nat)) = int d"
  by (simp add: TODIGIT_def)









lemma decimal_value_append:
  "decimal_value (s @ [c]) = decimal_value s * 10 + nat (TODIGIT c)"
  by (simp add: decimal_value_def)

lemma decimal_value_decimal: "decimal_value (decimal n) = n"
proof (induction n rule: decimal.induct)
  case (1 n)
  show ?case
  proof (cases "n < 10")
    case True
    then show ?thesis by (subst decimal.simps) (simp add: decimal_value_def TODIGIT_digit)
  next
    case False
    with 1 show ?thesis
      by (subst decimal.simps) (simp add: decimal_value_append TODIGIT_digit)
  qed
qed


lemma command_substitution_id:
  "[] \<notin> set ys \<Longrightarrow> command_substitution ys = ys"
  by (cases ys rule: rev_cases) (auto simp: command_substitution_def)

lemma mset_take_subset: "mset (take n p) \<subseteq># mset p"
proof -
  have "mset p = mset (take n p) + mset (drop n p)"
    by (metis append_take_drop_id mset_append)
  then show ?thesis by simp
qed




text \<open>
  C8 as stated, refuted: with two explicit packages and N = 3 the \<open>random\<close> branch does
  not fail; it selects both packages.
\<close>

theorem select_random_counterexample:
  "length [''a'', ''b''] < (3::nat)
   \<and> select_packages rev False Random ''3'' [''a'', ''b''] = Inr [''b'', ''a'']
   \<and> select_packages rev True Random ''3'' [''a'', ''b''] = Inr [''b'', ''a'']"
  by (simp add: select_packages_def printf_lines_def shuf_n_def command_substitution_def
      mapfile_here_string_def is_digit_def decimal_value_def TODIGIT_def)

text \<open>
  C8, amended. There is no check of N against the number of explicit packages. For a
  numeric argument that denotes N at least 1, and a list of at least one name, no name
  empty, the \<open>random\<close> mode does not fail: it selects the first N names of the shuffle of the
  list, that is min N (number of explicit packages) names drawn from the list without
  replacement, distinct when the list has no repetition; N beyond the length selects the
  whole list, shuffled.
\<close>

theorem select_random_clamps:
  assumes "FILTER_VALUE \<noteq> []" and "list_all is_digit FILTER_VALUE"
    and "decimal_value FILTER_VALUE = N" and "0 < N"
    and "mset (shuffle explicit_array) = mset explicit_array"
    and "explicit_array \<noteq> []" and "[] \<notin> set explicit_array"
  shows "select_packages shuffle sigpipe Random FILTER_VALUE explicit_array
           = Inr (take N (shuffle explicit_array))
   \<and> length (take N (shuffle explicit_array)) = min N (length explicit_array)
   \<and> mset (take N (shuffle explicit_array)) \<subseteq># mset explicit_array
   \<and> (distinct explicit_array \<longrightarrow> distinct (take N (shuffle explicit_array)))
   \<and> decimal_value (decimal N) = N"
proof (intro conjI impI)
  let ?p = "shuffle explicit_array"
  from assms have set_p: "set ?p = set explicit_array" by (metis set_mset_mset)
  from assms have len_p: "length ?p = length explicit_array" by (metis size_mset)
  have "[] \<notin> set (take N ?p)" using assms set_p by (auto dest: in_set_takeD)
  then have cs: "command_substitution (take N ?p) = take N ?p"
    by (rule command_substitution_id)
  have ne: "take N ?p \<noteq> []" using assms len_p by auto
  show "select_packages shuffle sigpipe Random FILTER_VALUE explicit_array = Inr (take N ?p)"
    using assms cs ne
    by (simp add: select_packages_def printf_lines_def shuf_n_def mapfile_here_string_def)
  show "length (take N ?p) = min N (length explicit_array)"
    using len_p by (simp add: min.commute)
  show "mset (take N ?p) \<subseteq># mset explicit_array"
    using mset_take_subset[of N ?p] assms by simp
  show "decimal_value (decimal N) = N" by (rule decimal_value_decimal)
next
  assume "distinct explicit_array"
  with assms have "distinct (shuffle explicit_array)" by (metis mset_eq_imp_distinct_iff)
  then show "distinct (take N (shuffle explicit_array))" by (rule distinct_take)
qed

theorem select_random_clamps_witness:
  "select_packages rev True Random ''2'' [''a'', ''b'', ''c''] = Inr [''c'', ''b'']
   \<and> select_packages rev True Random ''07'' [''a'', ''b'', ''c''] = Inr [''c'', ''b'', ''a'']
   \<and> distinct (take 2 (rev [''a'', ''b'', ''c'']))"
proof -
  have v: "''2'' \<noteq> []" "list_all is_digit ''2''" "decimal_value ''2'' = 2" "0 < (2::nat)"
    "''07'' \<noteq> []" "list_all is_digit ''07''" "decimal_value ''07'' = 7" "0 < (7::nat)"
    by (simp_all add: is_digit_def decimal_value_def TODIGIT_def)
  have l: "mset (rev [''a'', ''b'', ''c'']) = mset [''a'', ''b'', ''c'']"
    "[''a'', ''b'', ''c''] \<noteq> []" "[] \<notin> set [''a'', ''b'', ''c'']" "distinct [''a'', ''b'', ''c'']"
    by simp_all
  from select_random_clamps[where FILTER_VALUE = "''2''" and N = 2 and shuffle = rev
        and explicit_array = "[''a'', ''b'', ''c'']" and sigpipe = True, OF v(1-4) l(1-3)]
    select_random_clamps[where FILTER_VALUE = "''07''" and N = 7 and shuffle = rev
        and explicit_array = "[''a'', ''b'', ''c'']" and sigpipe = True, OF v(5-8) l(1-3)] l(4)
  show ?thesis by simp
qed

end
